theory Spec2Isabelle
  imports Main "HOL-Library.Word" "HOL-Library.Monad_Syntax"
begin

unbundle bit_operations_syntax

section \<open>Common types (types.hpp)\<close>

text \<open>
  Bytes are 8-bit words, \<open>std::uint32_t\<close> is a 32-bit word. A C++ \<open>int\<close> is modelled
  by \<open>int\<close>; every conversion between an unsigned machine integer and \<open>int\<close> that the
  source performs is written out (\<open>sint\<close> for \<open>static_cast<int>\<close> of a 32-bit value).
  \<open>std::size_t\<close> is modelled by \<open>nat\<close>; the explicit overflow checks of the source are
  kept against \<open>SIZE_MAX\<close>.

  An access outside a buffer is undefined behaviour in C++. In the model every read and
  write through an index is checked: a function that may touch memory returns an
  \<open>option\<close>, and \<open>None\<close> stands for an out-of-bounds access.
\<close>

type_synonym byte = "8 word"
type_synonym u16 = "16 word"
type_synonym u32 = "32 word"

datatype pixel_format = indexed8 | rgb888 | rgba8888

fun bytes_per_pixel :: "pixel_format \<Rightarrow> nat" where
  "bytes_per_pixel indexed8 = 1"
| "bytes_per_pixel rgb888 = 3"
| "bytes_per_pixel rgba8888 = 4"

record image_rect =
  rect_x :: int
  rect_y :: int
  rect_w :: int
  rect_h :: int

datatype subrect_kind = sprite | tile | frame

record subrect =
  rect :: image_rect
  kind :: subrect_kind
  user_tag :: u32

text \<open>The default-constructed \<open>subrect\<close>, used by \<open>std::vector::resize\<close>.\<close>

definition subrect_default :: subrect where
  "subrect_default =
     \<lparr>rect = \<lparr>rect_x = 0, rect_y = 0, rect_w = 0, rect_h = 0\<rparr>, kind = sprite, user_tag = 0\<rparr>"

datatype decode_error =
    none
  | invalid_format
  | unsupported_version
  | unsupported_encoding
  | unsupported_bit_depth
  | dimensions_exceeded
  | truncated_data
  | io_error
  | internal_error

record decode_result =
  ok :: bool
  error :: decode_error
  message :: string

definition success :: decode_result where
  "success = \<lparr>ok = True, error = none, message = []\<rparr>"

definition failure :: "decode_error \<Rightarrow> string \<Rightarrow> decode_result" where
  "failure err msg = \<lparr>ok = False, error = err, message = msg\<rparr>"

record decode_options =
  max_width :: int
  max_height :: int
  enable_packing :: bool
  padding :: int
  pack_max_width :: int
  pack_max_height :: int
  power_of_two :: bool

text \<open>The member initialisers of \<open>decode_options\<close>.\<close>

definition default_options :: decode_options where
  "default_options =
     \<lparr>max_width = 16384, max_height = 16384, enable_packing = False, padding = 0,
      pack_max_width = 4096, pack_max_height = 4096, power_of_two = False\<rparr>"

section \<open>Checked memory access\<close>

definition rd :: "'a list \<Rightarrow> nat \<Rightarrow> 'a option" where
  "rd xs i = (if i < length xs then Some (xs ! i) else None)"

definition wr :: "'a list \<Rightarrow> nat \<Rightarrow> 'a \<Rightarrow> 'a list option" where
  "wr xs i v = (if i < length xs then Some (xs[i := v]) else None)"

text \<open>\<open>memcpy\<close> of \<open>src\<close> to position \<open>off\<close> of \<open>dst\<close>; the callers check the bounds.\<close>

definition copy_bytes :: "'a list \<Rightarrow> nat \<Rightarrow> 'a list \<Rightarrow> 'a list" where
  "copy_bytes dst off src = take off dst @ src @ drop (off + length src) dst"

text \<open>A \<open>for\<close> loop over the given indices whose body may fail.\<close>

fun for_loop :: "nat list \<Rightarrow> (nat \<Rightarrow> 's \<Rightarrow> 's option) \<Rightarrow> 's \<Rightarrow> 's option" where
  "for_loop [] body s = Some s"
| "for_loop (i # is) body s =
     (case body i s of None \<Rightarrow> None | Some s' \<Rightarrow> for_loop is body s')"

text \<open>\<open>static_cast<int>\<close> of a \<open>std::size_t\<close> (32-bit two's complement \<open>int\<close>).\<close>

definition int_of_size :: "nat \<Rightarrow> int" where
  "int_of_size n = sint (word_of_nat n :: u32)"

section \<open>The in-memory surface (surface.cpp)\<close>

record memory_surface =
  pixels :: "byte list"
  palette :: "byte list"
  subrects :: "subrect list"
  width :: int
  height :: int
  pitch :: nat
  format :: pixel_format

text \<open>The default-constructed \<open>memory_surface\<close>.\<close>

definition empty_surface :: memory_surface where
  "empty_surface =
     \<lparr>pixels = [], palette = [], subrects = [], width = 0, height = 0, pitch = 0,
      format = rgba8888\<rparr>"

definition SIZE_MAX :: nat where
  "SIZE_MAX = 2 ^ 64 - 1"

definition MAX_BUFFER_SIZE :: nat where
  "MAX_BUFFER_SIZE = 1024 * 1024 * 1024"

text \<open>
  \<open>set_size\<close> assigns the four scalar members and then resizes the pixel vector inside a
  \<open>try\<close> block. The argument \<open>resize_ok\<close> says whether that allocation succeeds; with
  \<open>resize_ok = False\<close> the \<open>catch (std::bad_alloc)\<close> branch returns \<open>false\<close>, after the
  scalar members were already assigned (\<open>resize\<close> leaves the vector as it was).
\<close>

definition set_size ::
  "int \<Rightarrow> int \<Rightarrow> pixel_format \<Rightarrow> bool \<Rightarrow> memory_surface \<Rightarrow> bool \<times> memory_surface" where
  "set_size wd ht fmt resize_ok s =
     (if wd \<le> 0 \<or> ht \<le> 0 then (False, s)
      else
        let w = nat wd; h = nat ht; bpp = bytes_per_pixel fmt in
        if w > SIZE_MAX div bpp then (False, s)
        else
          let p = w * bpp in
          if p > SIZE_MAX div h then (False, s)
          else
            let total_size = p * h in
            if total_size > MAX_BUFFER_SIZE then (False, s)
            else
              let s1 = s\<lparr>width := wd, height := ht, format := fmt, pitch := p\<rparr> in
              if \<not> resize_ok then (False, s1)
              else (True, s1\<lparr>pixels := replicate total_size 0, palette := [], subrects := []\<rparr>))"

text \<open>
  The pointer argument of \<open>write_pixels\<close> is \<open>None\<close> for a null pointer and otherwise the
  bytes that can be read from it. \<open>memcpy\<close> reads \<open>bytes_to_copy\<close> of them; reading more
  than the caller's buffer holds is an out-of-bounds access.
\<close>

definition write_pixels ::
  "int \<Rightarrow> int \<Rightarrow> int \<Rightarrow> byte list option \<Rightarrow> memory_surface \<Rightarrow> memory_surface option" where
  "write_pixels x y count ptr s =
     (if y < 0 \<or> y \<ge> height s \<or> x < 0 \<or> count \<le> 0 \<or> ptr = None then Some s
      else
        let x_offset = nat x in
        if x_offset \<ge> pitch s then Some s
        else
          let offset = nat y * pitch s + x_offset;
              max_bytes = pitch s - x_offset;
              bytes_to_copy = min (nat count) max_bytes
          in
          if offset + bytes_to_copy \<le> length (pixels s) then
            (if bytes_to_copy \<le> length (the ptr)
             then Some (s\<lparr>pixels := copy_bytes (pixels s) offset (take bytes_to_copy (the ptr))\<rparr>)
             else None)
          else Some s)"

definition write_pixel :: "int \<Rightarrow> int \<Rightarrow> byte \<Rightarrow> memory_surface \<Rightarrow> memory_surface" where
  "write_pixel x y pixel s =
     (if x < 0 \<or> x \<ge> width s \<or> y < 0 \<or> y \<ge> height s then s
      else if format s \<noteq> indexed8 then s
      else
        let offset = nat y * pitch s + nat x in
        if offset < length (pixels s) then s\<lparr>pixels := (pixels s)[offset := pixel]\<rparr> else s)"

definition set_palette_size :: "int \<Rightarrow> memory_surface \<Rightarrow> memory_surface" where
  "set_palette_size count s =
     (if count \<le> 0 \<or> count > 256 then s
      else s\<lparr>palette := replicate (nat count * 3) 0\<rparr>)"

definition write_palette :: "int \<Rightarrow> byte list \<Rightarrow> memory_surface \<Rightarrow> memory_surface" where
  "write_palette start colors s =
     (if start < 0 \<or> colors = [] then s
      else
        let start_offset = nat start * 3 in
        if start_offset \<ge> length (palette s) then s
        else
          let bytes_to_copy = min (length colors) (length (palette s) - start_offset) in
          s\<lparr>palette := copy_bytes (palette s) start_offset (take bytes_to_copy colors)\<rparr>)"

definition set_subrect :: "int \<Rightarrow> subrect \<Rightarrow> memory_surface \<Rightarrow> memory_surface" where
  "set_subrect index sr s =
     (if index < 0 then s
      else
        let i = nat index;
            v = (if i \<ge> length (subrects s)
                 then subrects s @ replicate (i + 1 - length (subrects s)) subrect_default
                 else subrects s)
        in s\<lparr>subrects := v[i := sr]\<rparr>)"

text \<open>A call of one of the six surface operations, and a sequence of calls.\<close>

datatype surface_op =
    Set_size int int pixel_format bool
  | Write_pixels int int int "byte list option"
  | Write_pixel int int byte
  | Set_palette_size int
  | Write_palette int "byte list"
  | Set_subrect int subrect

fun apply_op :: "surface_op \<Rightarrow> memory_surface \<Rightarrow> memory_surface option" where
  "apply_op (Set_size w h f a) s = Some (snd (set_size w h f a s))"
| "apply_op (Write_pixels x y c p) s = write_pixels x y c p s"
| "apply_op (Write_pixel x y v) s = Some (write_pixel x y v s)"
| "apply_op (Set_palette_size n) s = Some (set_palette_size n s)"
| "apply_op (Write_palette i cs) s = Some (write_palette i cs s)"
| "apply_op (Set_subrect i sr) s = Some (set_subrect i sr s)"

fun apply_ops :: "surface_op list \<Rightarrow> memory_surface \<Rightarrow> memory_surface option" where
  "apply_ops [] s = Some s"
| "apply_ops (c # cs) s =
     (case apply_op c s of None \<Rightarrow> None | Some s' \<Rightarrow> apply_ops cs s')"

text \<open>The two size invariants of the data model.\<close>

definition pixels_inv :: "memory_surface \<Rightarrow> bool" where
  "pixels_inv s \<longleftrightarrow>
     int (length (pixels s)) = width s * height s * int (bytes_per_pixel (format s))"

definition palette_inv :: "memory_surface \<Rightarrow> bool" where
  "palette_inv s \<longleftrightarrow> length (palette s) mod 3 = 0 \<and> length (palette s) \<le> 768"

definition allocs_succeed :: "surface_op list \<Rightarrow> bool" where
  "allocs_succeed cs \<longleftrightarrow>
     list_all (\<lambda>c. case c of Set_size w h f a \<Rightarrow> a | _ \<Rightarrow> True) cs"


section \<open>Shared decoder helpers (decode_helpers.hpp)\<close>

definition DEFAULT_MAX_DIMENSION :: int where
  "DEFAULT_MAX_DIMENSION = 16384"

definition get_dimension_limits :: "decode_options \<Rightarrow> int \<Rightarrow> int \<times> int" where
  "get_dimension_limits options default_limit =
     (let max_w = (if max_width options > 0 then max_width options else default_limit);
          max_h = (if max_height options > 0 then max_height options else default_limit)
      in (max_w, max_h))"

definition validate_dimensions :: "int \<Rightarrow> int \<Rightarrow> decode_options \<Rightarrow> int \<Rightarrow> decode_result" where
  "validate_dimensions wd ht options default_limit =
     (case get_dimension_limits options default_limit of (max_w, max_h) \<Rightarrow>
        if wd > max_w \<or> ht > max_h
        then failure dimensions_exceeded ''Image dimensions exceed limits''
        else success)"

text \<open>
  \<open>write_rows\<close> receives a pointer into a buffer; the model passes the buffer. Row \<open>y\<close>
  is read from \<open>data + y * row_bytes\<close>.
\<close>

definition write_rows :: "memory_surface \<Rightarrow> byte list \<Rightarrow> nat \<Rightarrow> int \<Rightarrow> memory_surface option" where
  "write_rows surf data row_bytes ht =
     for_loop [0..<nat ht]
       (\<lambda>y s. write_pixels 0 (int y) (int_of_size row_bytes) (Some (drop (y * row_bytes) data)) s)
       surf"

section \<open>Commodore 64 bitmaps (c64_common.hpp)\<close>

definition PALETTE :: "u32 list" where
  "PALETTE =
     [0x000000, 0xffffff, 0x68372b, 0x70a4b2, 0x6f3d86, 0x588d43, 0x352879, 0xb8c76f,
      0x6f4f25, 0x433900, 0x9a6759, 0x444444, 0x6c6c6c, 0x9ad284, 0x6c5eb5, 0x959595]"

definition MULTICOLOR_WIDTH :: int where "MULTICOLOR_WIDTH = 320"
definition MULTICOLOR_HEIGHT :: int where "MULTICOLOR_HEIGHT = 200"
definition BITMAP_SIZE :: nat where "BITMAP_SIZE = 8000"
definition SCREEN_RAM_SIZE :: nat where "SCREEN_RAM_SIZE = 1000"
definition COLOR_RAM_SIZE :: nat where "COLOR_RAM_SIZE = 1000"
definition RGB_BYTES :: int where "RGB_BYTES = 3"

definition RGB_BLEND_MASK :: u32 where
  "RGB_BLEND_MASK = 0x7f7f7f"

text \<open>The three bytes that \<open>write_rgb_pixel\<close> extracts from \<open>0x00RRGGBB\<close>.\<close>

definition rgb_bytes :: "u32 \<Rightarrow> byte list" where
  "rgb_bytes rgb =
     [ucast (drop_bit 16 rgb AND 0xff), ucast (drop_bit 8 rgb AND 0xff), ucast (rgb AND 0xff)]"

definition write_rgb_pixel :: "memory_surface \<Rightarrow> int \<Rightarrow> int \<Rightarrow> u32 \<Rightarrow> memory_surface option" where
  "write_rgb_pixel surf x y rgb = write_pixels (x * RGB_BYTES) y RGB_BYTES (Some (rgb_bytes rgb)) surf"

definition blend_rgb :: "u32 \<Rightarrow> u32 \<Rightarrow> u32" where
  "blend_rgb rgb1 rgb2 = (rgb1 AND rgb2) + (drop_bit 1 (rgb1 XOR rgb2) AND RGB_BLEND_MASK)"

text \<open>
  The three pointers of \<open>decode_multicolor\<close> point into one buffer \<open>src\<close>; they are
  given as offsets into it.
\<close>

definition multicolor_index ::
  "byte list \<Rightarrow> nat \<Rightarrow> nat \<Rightarrow> nat \<Rightarrow> byte \<Rightarrow> nat \<Rightarrow> nat \<Rightarrow> byte option" where
  "multicolor_index src bitmap screen_ram color_ram background x y =
     (let char_col = x div 8;
          char_row = y div 8;
          char_offset = char_row * 40 + char_col;
          row_in_char = y mod 8;
          bitmap_offset = char_offset * 8 + row_in_char
      in
      case rd src (bitmap + bitmap_offset) of None \<Rightarrow> None
      | Some bitmap_byte \<Rightarrow>
          let pixel_pair = (x mod 8) div 2;
              shift = 6 - pixel_pair * 2;
              color_selector = drop_bit shift bitmap_byte AND 0x03
          in
          if color_selector = 0 then Some (background AND 0x0f)
          else if color_selector = 1 then
            map_option (\<lambda>v. drop_bit 4 v AND 0x0f) (rd src (screen_ram + char_offset))
          else if color_selector = 2 then
            map_option (\<lambda>v. v AND 0x0f) (rd src (screen_ram + char_offset))
          else if color_selector = 3 then
            map_option (\<lambda>v. v AND 0x0f) (rd src (color_ram + char_offset))
          else Some 0)"

definition decode_multicolor ::
  "byte list \<Rightarrow> nat \<Rightarrow> nat \<Rightarrow> nat \<Rightarrow> byte \<Rightarrow> memory_surface \<Rightarrow> memory_surface option" where
  "decode_multicolor src bitmap screen_ram color_ram background surf =
     for_loop [0..<nat MULTICOLOR_HEIGHT]
       (\<lambda>y. for_loop [0..<nat MULTICOLOR_WIDTH]
          (\<lambda>x s.
             case multicolor_index src bitmap screen_ram color_ram background x y of
               None \<Rightarrow> None
             | Some color_index \<Rightarrow>
                 (case rd PALETTE (unat color_index) of None \<Rightarrow> None
                  | Some rgb \<Rightarrow> write_rgb_pixel s (int x) (int y) rgb)))
       surf"

section \<open>Koala (koala.cpp)\<close>

definition KOALA_SIZE_WITH_ADDR :: nat where "KOALA_SIZE_WITH_ADDR = 10003"
definition KOALA_SIZE_WITHOUT_ADDR :: nat where "KOALA_SIZE_WITHOUT_ADDR = 10001"
definition KOALA_SIZE_OCP :: nat where "KOALA_SIZE_OCP = 10018"
definition GG_RLE_ESCAPE :: byte where "GG_RLE_ESCAPE = 0xfe"
definition MAX_COMPRESSION_RATIO :: nat where "MAX_COMPRESSION_RATIO = 1000"

text \<open>
  The \<open>while\<close> loop of \<open>decompress_gg\<close>. The result is the returned flag and the output
  vector. A run is written as \<open>value\<close> then \<open>count\<close>.
\<close>

function gg_loop :: "byte list \<Rightarrow> nat \<Rightarrow> nat \<Rightarrow> byte list \<Rightarrow> (bool \<times> byte list) option" where
  "gg_loop data output_size pos output =
     (if length output < output_size \<and> pos < length data then
        (case rd data pos of None \<Rightarrow> None
         | Some b \<Rightarrow>
             if b = GG_RLE_ESCAPE then
               (if pos + 1 + 1 \<ge> length data then Some (False, output)
                else
                  (case rd data (pos + 1) of None \<Rightarrow> None
                   | Some v \<Rightarrow>
                       (case rd data (pos + 2) of None \<Rightarrow> None
                        | Some count \<Rightarrow>
                            let remaining = output_size - length output;
                                to_write = min (unat count) remaining
                            in gg_loop data output_size (pos + 3) (output @ replicate to_write v))))
             else gg_loop data output_size (pos + 1) (output @ [b]))
      else Some (length output = output_size, output))"
  by pat_completeness auto
termination
  by (relation "measure (\<lambda>(data, output_size, pos, output). length data - pos)") auto

definition decompress_gg ::
  "byte list \<Rightarrow> nat \<Rightarrow> byte list \<Rightarrow> nat \<Rightarrow> (bool \<times> byte list) option" where
  "decompress_gg data offset output output_size =
     (if output_size > length data * MAX_COMPRESSION_RATIO then Some (False, output)
      else gg_loop data output_size offset [])"

definition is_uncompressed_koala :: "byte list \<Rightarrow> bool" where
  "is_uncompressed_koala data \<longleftrightarrow>
     length data = KOALA_SIZE_WITHOUT_ADDR \<or> length data = KOALA_SIZE_WITH_ADDR \<or>
     length data = 10006 \<or> length data = KOALA_SIZE_OCP"

text \<open>
  \<open>is_gg_koala\<close> reads \<open>data[0]\<close> and \<open>data[1]\<close> only after it has checked that the
  size is at least 100; the search loop runs over the indices from 2 to the end.
\<close>

definition is_gg_koala :: "byte list \<Rightarrow> bool" where
  "is_gg_koala data =
     (if length data < 100 \<or> length data \<ge> KOALA_SIZE_WITHOUT_ADDR then False
      else if length data \<ge> 2 then
        (let load_addr = (ucast (data ! 0) OR push_bit 8 (ucast (data ! 1)) :: u16) in
         if load_addr \<noteq> 0x6000 \<and> load_addr \<noteq> 0x4000 \<and> load_addr \<noteq> 0x2000 \<and> load_addr \<noteq> 0x5c00
         then False
         else list_ex (\<lambda>b. b = GG_RLE_ESCAPE) (drop 2 data))
      else False)"

definition koala_sniff :: "byte list \<Rightarrow> bool" where
  "koala_sniff data = (if is_uncompressed_koala data then True else if is_gg_koala data then True else False)"

text \<open>
  The offsets chosen by \<open>koala_decoder::decode\<close> for an uncompressed file of a recognised
  size: bitmap, screen RAM, colour RAM and background byte.
\<close>

definition koala_offsets :: "nat \<Rightarrow> (nat \<times> nat \<times> nat \<times> nat) option" where
  "koala_offsets n =
     (if n = KOALA_SIZE_WITHOUT_ADDR then
        Some (0, BITMAP_SIZE, BITMAP_SIZE + SCREEN_RAM_SIZE,
              BITMAP_SIZE + SCREEN_RAM_SIZE + COLOR_RAM_SIZE)
      else if n = KOALA_SIZE_WITH_ADDR \<or> n = 10006 then
        Some (2, 2 + BITMAP_SIZE, 2 + BITMAP_SIZE + SCREEN_RAM_SIZE,
              2 + BITMAP_SIZE + SCREEN_RAM_SIZE + COLOR_RAM_SIZE)
      else if n = KOALA_SIZE_OCP then
        (let color_offset = 2 + BITMAP_SIZE + 8 + SCREEN_RAM_SIZE in
         Some (2, 2 + BITMAP_SIZE, color_offset, color_offset - 1))
      else None)"

text \<open>
  The part of \<open>koala_decoder::decode\<close> after the source buffer and the offsets are known.
  \<open>decompressed\<close> is the local vector of that name (empty when the file is not compressed).
\<close>

definition koala_decode_image ::
  "byte list \<Rightarrow> byte list \<Rightarrow> byte list \<Rightarrow> nat \<times> nat \<times> nat \<times> nat \<Rightarrow>
   memory_surface \<Rightarrow> decode_options \<Rightarrow> bool \<Rightarrow> (decode_result \<times> memory_surface) option" where
  "koala_decode_image data decompressed source_data offs surf options resize_ok =
     (case offs of (bitmap_offset, screen_offset, color_offset, background_offset) \<Rightarrow>
        let available_size = (if decompressed = [] then length data else length decompressed);
            required_size = background_offset + 1
        in
        if available_size < required_size then
          Some (failure truncated_data ''Koala data truncated: incomplete image data'', surf)
        else
          let max_w = (if max_width options > 0 then max_width options else 16384);
              max_h = (if max_height options > 0 then max_height options else 16384)
          in
          if MULTICOLOR_WIDTH > max_w \<or> MULTICOLOR_HEIGHT > max_h then
            Some (failure dimensions_exceeded ''Image dimensions exceed limits'', surf)
          else
            (case set_size MULTICOLOR_WIDTH MULTICOLOR_HEIGHT rgb888 resize_ok surf of
               (False, surf1) \<Rightarrow> Some (failure internal_error ''Failed to allocate surface'', surf1)
             | (True, surf1) \<Rightarrow>
                 (case rd source_data background_offset of None \<Rightarrow> None
                  | Some background \<Rightarrow>
                      map_option (\<lambda>surf2. (success, surf2))
                        (decode_multicolor source_data bitmap_offset screen_offset color_offset
                           background surf1))))"

definition koala_decode ::
  "byte list \<Rightarrow> memory_surface \<Rightarrow> decode_options \<Rightarrow> bool \<Rightarrow> (decode_result \<times> memory_surface) option" where
  "koala_decode data surf options resize_ok =
     (if data = [] then Some (failure truncated_data ''Koala file is empty'', surf)
      else if is_gg_koala data then
        (case decompress_gg data 2 [] KOALA_SIZE_WITHOUT_ADDR of None \<Rightarrow> None
         | Some (False, decompressed) \<Rightarrow>
             Some (failure truncated_data ''Failed to decompress GG Koala data'', surf)
         | Some (True, decompressed) \<Rightarrow>
             koala_decode_image data decompressed decompressed
               (0, BITMAP_SIZE, BITMAP_SIZE + SCREEN_RAM_SIZE,
                BITMAP_SIZE + SCREEN_RAM_SIZE + COLOR_RAM_SIZE)
               surf options resize_ok)
      else
        (case koala_offsets (length data) of
           None \<Rightarrow> Some (failure invalid_format ''Unrecognized Koala file size'', surf)
         | Some offs \<Rightarrow> koala_decode_image data [] data offs surf options resize_ok))"

section \<open>DrazLace (drazlace.cpp)\<close>

definition DRAZLACE_UNPACKED_SIZE :: nat where "DRAZLACE_UNPACKED_SIZE = 18242"

text \<open>The signature \<open>"DRAZLACE! 1.0"\<close> as bytes.\<close>

definition DRAZLACE_SIGNATURE :: "byte list" where
  "DRAZLACE_SIGNATURE =
     [0x44, 0x52, 0x41, 0x5a, 0x4c, 0x41, 0x43, 0x45, 0x21, 0x20, 0x31, 0x2e, 0x30]"

definition DRAZLACE_SIGNATURE_LEN :: nat where "DRAZLACE_SIGNATURE_LEN = 13"
definition COLOR_OFFSET :: nat where "COLOR_OFFSET = 2"
definition VIDEO_MATRIX_OFFSET :: nat where "VIDEO_MATRIX_OFFSET = 0x402"
definition BITMAP1_OFFSET :: nat where "BITMAP1_OFFSET = 0x802"
definition BITMAP2_OFFSET :: nat where "BITMAP2_OFFSET = 0x2802"
definition BACKGROUND_OFFSET :: nat where "BACKGROUND_OFFSET = 0x2742"
definition SHIFT_OFFSET :: nat where "SHIFT_OFFSET = 0x2744"

text \<open>The inner \<open>for\<close> loop of \<open>decompress_drp\<close>: \<open>n\<close> writes of \<open>output[out_pos++] = value\<close>.\<close>

fun fill_run :: "byte list \<Rightarrow> nat \<Rightarrow> nat \<Rightarrow> byte \<Rightarrow> byte list option" where
  "fill_run output out_pos 0 v = Some output"
| "fill_run output out_pos (Suc n) v =
     (case wr output out_pos v of None \<Rightarrow> None
      | Some output' \<Rightarrow> fill_run output' (Suc out_pos) n v)"

function drp_loop ::
  "byte list \<Rightarrow> byte \<Rightarrow> nat \<Rightarrow> nat \<Rightarrow> nat \<Rightarrow> byte list \<Rightarrow> (bool \<times> byte list) option" where
  "drp_loop data escape output_size in_pos out_pos output =
     (if out_pos < output_size \<and> in_pos < length data then
        (case rd data in_pos of None \<Rightarrow> None
         | Some b \<Rightarrow>
             if b = escape then
               (if in_pos + 1 \<ge> length data then Some (False, output)
                else
                  (case rd data (in_pos + 1) of None \<Rightarrow> None
                   | Some count \<Rightarrow>
                       if in_pos + 2 \<ge> length data then Some (False, output)
                       else
                         (case rd data (in_pos + 2) of None \<Rightarrow> None
                          | Some v \<Rightarrow>
                              let remaining = output_size - out_pos;
                                  to_write = min (unat count) remaining
                              in
                              (case fill_run output out_pos to_write v of None \<Rightarrow> None
                               | Some output' \<Rightarrow>
                                   drp_loop data escape output_size (in_pos + 3)
                                     (out_pos + to_write) output'))))
             else
               (case wr output out_pos b of None \<Rightarrow> None
                | Some output' \<Rightarrow>
                    drp_loop data escape output_size (in_pos + 1) (out_pos + 1) output'))
      else Some (out_pos = output_size, output))"
  by pat_completeness auto
termination
  by (relation "measure (\<lambda>(data, escape, output_size, in_pos, out_pos, output). length data - in_pos)")
    auto

definition decompress_drp :: "byte list \<Rightarrow> byte list \<Rightarrow> nat \<Rightarrow> (bool \<times> byte list) option" where
  "decompress_drp data output output_size =
     (if length data < 17 then Some (False, output)
      else if output_size > length data * MAX_COMPRESSION_RATIO then Some (False, output)
      else
        (case rd data 15 of None \<Rightarrow> None
         | Some escape \<Rightarrow>
             let out0 = replicate output_size 0 in
             (case rd data 0 of None \<Rightarrow> None
              | Some d0 \<Rightarrow>
                  (case wr out0 0 d0 of None \<Rightarrow> None
                   | Some out1 \<Rightarrow>
                       (case rd data 1 of None \<Rightarrow> None
                        | Some d1 \<Rightarrow>
                            (case wr out1 1 d1 of None \<Rightarrow> None
                             | Some out2 \<Rightarrow> drp_loop data escape output_size 16 2 out2))))))"

definition get_c64_multicolor ::
  "byte list \<Rightarrow> nat \<Rightarrow> nat \<Rightarrow> nat \<Rightarrow> byte \<Rightarrow> int \<Rightarrow> int \<Rightarrow> int \<Rightarrow> byte option" where
  "get_c64_multicolor content bitmap_offset video_matrix_offset color_offset background x0 y left_skip =
     (let x = x0 + left_skip in
      if x < 0 then Some background
      else
        let char_offset = nat ((y div 8) * 40 + (x div 8));
            row_in_char = nat (y mod 8);
            bit_shift = nat (6 - ((x mod 8) div 2) * 2)
        in
        case rd content (bitmap_offset + char_offset * 8 + row_in_char) of None \<Rightarrow> None
        | Some b \<Rightarrow>
            let color_sel = drop_bit bit_shift b AND 0x03 in
            if color_sel = 0 then Some background
            else if color_sel = 1 then
              map_option (\<lambda>v. drop_bit 4 v AND 0x0f) (rd content (video_matrix_offset + char_offset))
            else if color_sel = 2 then
              map_option (\<lambda>v. v AND 0x0f) (rd content (video_matrix_offset + char_offset))
            else if color_sel = 3 then
              map_option (\<lambda>v. v AND 0x0f) (rd content (color_offset + char_offset))
            else Some background)"

definition decode_c64_multicolor_frame ::
  "byte list \<Rightarrow> nat \<Rightarrow> nat \<Rightarrow> nat \<Rightarrow> byte \<Rightarrow> int \<Rightarrow> u32 list \<Rightarrow> u32 list option" where
  "decode_c64_multicolor_frame content bitmap_offset video_matrix_offset color_offset background
     left_skip frame_pixels =
     for_loop [0..<nat MULTICOLOR_HEIGHT]
       (\<lambda>y. for_loop [0..<nat MULTICOLOR_WIDTH]
          (\<lambda>x px.
             case get_c64_multicolor content bitmap_offset video_matrix_offset color_offset
                    background (int x) (int y) left_skip of
               None \<Rightarrow> None
             | Some color_index \<Rightarrow>
                 (case rd PALETTE (unat (color_index AND 0x0f)) of None \<Rightarrow> None
                  | Some rgb \<Rightarrow> wr px (nat (int y * MULTICOLOR_WIDTH + int x)) rgb)))
       frame_pixels"

definition apply_blend :: "u32 list \<Rightarrow> u32 list \<Rightarrow> memory_surface \<Rightarrow> memory_surface option" where
  "apply_blend frame1 frame2 surf =
     for_loop [0..<nat MULTICOLOR_HEIGHT]
       (\<lambda>y. for_loop [0..<nat MULTICOLOR_WIDTH]
          (\<lambda>x s.
             let idx = nat (int y * MULTICOLOR_WIDTH + int x) in
             case rd frame1 idx of None \<Rightarrow> None
             | Some p1 \<Rightarrow>
                 (case rd frame2 idx of None \<Rightarrow> None
                  | Some p2 \<Rightarrow> write_rgb_pixel s (int x) (int y) (blend_rgb p1 p2))))
       surf"

definition has_drazlace_signature :: "byte list \<Rightarrow> bool" where
  "has_drazlace_signature data =
     (if length data < 2 + DRAZLACE_SIGNATURE_LEN then False
      else take DRAZLACE_SIGNATURE_LEN (drop 2 data) = DRAZLACE_SIGNATURE)"

definition drazlace_sniff :: "byte list \<Rightarrow> bool" where
  "drazlace_sniff data =
     (if length data = DRAZLACE_UNPACKED_SIZE then True
      else if has_drazlace_signature data then True
      else False)"

text \<open>The part of \<open>drazlace_decoder::decode\<close> after the source buffer is known.\<close>

definition drazlace_decode_image ::
  "byte list \<Rightarrow> memory_surface \<Rightarrow> decode_options \<Rightarrow> bool \<Rightarrow> (decode_result \<times> memory_surface) option" where
  "drazlace_decode_image source_data surf options resize_ok =
     (case rd source_data SHIFT_OFFSET of None \<Rightarrow> None
      | Some shift_byte \<Rightarrow>
          let shift = uint shift_byte in
          if shift > 1 then Some (failure invalid_format ''Invalid DrazLace shift value'', surf)
          else
            let max_w = (if max_width options > 0 then max_width options else 16384);
                max_h = (if max_height options > 0 then max_height options else 16384)
            in
            if MULTICOLOR_WIDTH > max_w \<or> MULTICOLOR_HEIGHT > max_h then
              Some (failure dimensions_exceeded ''Image dimensions exceed limits'', surf)
            else
              (case set_size MULTICOLOR_WIDTH MULTICOLOR_HEIGHT rgb888 resize_ok surf of
                 (False, surf1) \<Rightarrow> Some (failure internal_error ''Failed to allocate surface'', surf1)
               | (True, surf1) \<Rightarrow>
                   (case rd source_data BACKGROUND_OFFSET of None \<Rightarrow> None
                    | Some background \<Rightarrow>
                        let blank = replicate (nat (MULTICOLOR_WIDTH * MULTICOLOR_HEIGHT)) (0 :: u32) in
                        (case decode_c64_multicolor_frame source_data BITMAP1_OFFSET
                                VIDEO_MATRIX_OFFSET COLOR_OFFSET background 0 blank of
                           None \<Rightarrow> None
                         | Some frame1 \<Rightarrow>
                             (case decode_c64_multicolor_frame source_data BITMAP2_OFFSET
                                     VIDEO_MATRIX_OFFSET COLOR_OFFSET background (- shift) blank of
                                None \<Rightarrow> None
                              | Some frame2 \<Rightarrow>
                                  map_option (\<lambda>surf2. (success, surf2))
                                    (apply_blend frame1 frame2 surf1))))))"

definition drazlace_decode ::
  "byte list \<Rightarrow> memory_surface \<Rightarrow> decode_options \<Rightarrow> bool \<Rightarrow> (decode_result \<times> memory_surface) option" where
  "drazlace_decode data surf options resize_ok =
     (if data = [] then Some (failure truncated_data ''DrazLace file is empty'', surf)
      else if has_drazlace_signature data then
        (case decompress_drp data [] DRAZLACE_UNPACKED_SIZE of None \<Rightarrow> None
         | Some (False, decompressed) \<Rightarrow>
             Some (failure truncated_data ''Failed to decompress DrazLace data'', surf)
         | Some (True, decompressed) \<Rightarrow> drazlace_decode_image decompressed surf options resize_ok)
      else if length data = DRAZLACE_UNPACKED_SIZE then
        drazlace_decode_image data surf options resize_ok
      else Some (failure invalid_format ''Unrecognized DrazLace file format'', surf))"

section \<open>Byte readers (byte_io.hpp)\<close>

text \<open>
  The readers take a pointer; the model takes the buffer and the offset of the pointer in
  it. The source does not check bounds here, the model does.
\<close>

definition read_le16 :: "byte list \<Rightarrow> nat \<Rightarrow> u16 option" where
  "read_le16 data p = do {
     b0 \<leftarrow> rd data p;
     b1 \<leftarrow> rd data (p + 1);
     Some (ucast b0 OR push_bit 8 (ucast b1))
   }"


definition read_be32 :: "byte list \<Rightarrow> nat \<Rightarrow> u32 option" where
  "read_be32 data p = do {
     b0 \<leftarrow> rd data p;
     b1 \<leftarrow> rd data (p + 1);
     b2 \<leftarrow> rd data (p + 2);
     b3 \<leftarrow> rd data (p + 3);
     Some (push_bit 24 (ucast b0) OR push_bit 16 (ucast b1) OR push_bit 8 (ucast b2) OR ucast b3)
   }"

section \<open>The registry (codec.cpp)\<close>

text \<open>
  A registered decoder: its name, its extensions, its sniff predicate and its decode
  function. The registry is the vector of decoders in registration order.
\<close>

record decoder =
  dec_name :: string
  dec_extensions :: "string list"
  dec_sniff :: "byte list \<Rightarrow> bool"
  dec_decode :: "byte list \<Rightarrow> memory_surface \<Rightarrow> decode_options \<Rightarrow> (decode_result \<times> memory_surface) option"

text \<open>\<open>register_decoder\<close> appends; a null pointer is ignored.\<close>

definition register_decoder :: "decoder option \<Rightarrow> decoder list \<Rightarrow> decoder list" where
  "register_decoder dec decoders = (case dec of None \<Rightarrow> decoders | Some d \<Rightarrow> decoders @ [d])"

fun find_decoder :: "decoder list \<Rightarrow> byte list \<Rightarrow> decoder option" where
  "find_decoder [] data = None"
| "find_decoder (dec # rest) data = (if dec_sniff dec data then Some dec else find_decoder rest data)"

fun find_decoder_by_name :: "decoder list \<Rightarrow> string \<Rightarrow> decoder option" where
  "find_decoder_by_name [] nm = None"
| "find_decoder_by_name (dec # rest) nm =
     (if dec_name dec = nm then Some dec else find_decoder_by_name rest nm)"

definition decode ::
  "decoder list \<Rightarrow> byte list \<Rightarrow> memory_surface \<Rightarrow> decode_options \<Rightarrow>
   (decode_result \<times> memory_surface) option" where
  "decode registry data surf options =
     (case find_decoder registry data of
        None \<Rightarrow> Some (failure invalid_format ''Unknown image format'', surf)
      | Some dec \<Rightarrow> dec_decode dec data surf options)"

definition decode_by_name ::
  "decoder list \<Rightarrow> byte list \<Rightarrow> memory_surface \<Rightarrow> string \<Rightarrow> decode_options \<Rightarrow>
   (decode_result \<times> memory_surface) option" where
  "decode_by_name registry data surf codec_name options =
     (case find_decoder_by_name registry codec_name of
        None \<Rightarrow> Some (failure invalid_format (''Unknown codec: '' @ codec_name), surf)
      | Some dec \<Rightarrow> dec_decode dec data surf options)"

section \<open>QOI (qoi.cpp)\<close>

definition QOI_MAGIC :: u32 where "QOI_MAGIC = 0x716F6966"
definition QOI_HEADER_SIZE :: nat where "QOI_HEADER_SIZE = 14"
definition QOI_END_MARKER_SIZE :: nat where "QOI_END_MARKER_SIZE = 8"
definition QOI_OP_INDEX :: byte where "QOI_OP_INDEX = 0x00"
definition QOI_OP_DIFF :: byte where "QOI_OP_DIFF = 0x40"
definition QOI_OP_LUMA :: byte where "QOI_OP_LUMA = 0x80"
definition QOI_OP_RUN :: byte where "QOI_OP_RUN = 0xC0"
definition QOI_OP_RGB :: byte where "QOI_OP_RGB = 0xFE"
definition QOI_OP_RGBA :: byte where "QOI_OP_RGBA = 0xFF"
definition QOI_MASK_2 :: byte where "QOI_MASK_2 = 0xC0"
definition MAX_PIXELS :: nat where "MAX_PIXELS = 400000000"

record rgba_t =
  px_r :: byte
  px_g :: byte
  px_b :: byte
  px_a :: byte

definition qoi_color_hash :: "byte \<Rightarrow> byte \<Rightarrow> byte \<Rightarrow> byte \<Rightarrow> nat" where
  "qoi_color_hash r g b a = (unat r * 3 + unat g * 5 + unat b * 7 + unat a * 11) mod 64"

text \<open>The local variables of the pixel loop of \<open>qoi_decoder::decode\<close>.\<close>

record qoi_state =
  q_src_pos :: nat
  q_dst_pos :: nat
  q_run :: int
  q_px :: rgba_t
  q_index :: "rgba_t list"
  q_pixels :: "byte list"

text \<open>
  The chunk decoded when \<open>run = 0\<close> and \<open>src_pos < src_end\<close>. The result is \<open>Inl\<close> of
  the failure when the source returns early, and otherwise the new position, pixel, run
  and index (the index is updated after every chunk).
\<close>

definition qoi_chunk ::
  "byte list \<Rightarrow> nat \<Rightarrow> qoi_state \<Rightarrow> (decode_result + qoi_state) option" where
  "qoi_chunk data src_end st =
     (case rd data (q_src_pos st) of None \<Rightarrow> None
      | Some b1 \<Rightarrow>
          let src_pos = q_src_pos st + 1; px = q_px st in
          (case
             (if b1 = QOI_OP_RGB then
                (if src_pos + 3 > src_end
                 then Some (Inl (failure truncated_data ''QOI RGB chunk truncated''))
                 else do {
                   r \<leftarrow> rd data src_pos;
                   g \<leftarrow> rd data (src_pos + 1);
                   b \<leftarrow> rd data (src_pos + 2);
                   Some (Inr (src_pos + 3, px\<lparr>px_r := r, px_g := g, px_b := b\<rparr>, q_run st))
                 })
              else if b1 = QOI_OP_RGBA then
                (if src_pos + 4 > src_end
                 then Some (Inl (failure truncated_data ''QOI RGBA chunk truncated''))
                 else do {
                   r \<leftarrow> rd data src_pos;
                   g \<leftarrow> rd data (src_pos + 1);
                   b \<leftarrow> rd data (src_pos + 2);
                   a \<leftarrow> rd data (src_pos + 3);
                   Some (Inr (src_pos + 4, \<lparr>px_r = r, px_g = g, px_b = b, px_a = a\<rparr>, q_run st))
                 })
              else if b1 AND QOI_MASK_2 = QOI_OP_INDEX then do {
                p \<leftarrow> rd (q_index st) (unat b1);
                Some (Inr (src_pos, p, q_run st))
              }
              else if b1 AND QOI_MASK_2 = QOI_OP_DIFF then
                Some (Inr (src_pos,
                  px\<lparr>px_r := px_r px + word_of_int (uint (drop_bit 4 b1 AND 0x03) - 2),
                     px_g := px_g px + word_of_int (uint (drop_bit 2 b1 AND 0x03) - 2),
                     px_b := px_b px + word_of_int (uint (b1 AND 0x03) - 2)\<rparr>,
                  q_run st))
              else if b1 AND QOI_MASK_2 = QOI_OP_LUMA then
                (if src_pos \<ge> src_end
                 then Some (Inl (failure truncated_data ''QOI LUMA chunk truncated''))
                 else do {
                   b2 \<leftarrow> rd data src_pos;
                   let vg = uint (b1 AND 0x3F) - 32;
                   Some (Inr (src_pos + 1,
                     px\<lparr>px_r := px_r px + word_of_int (vg - 8 + uint (drop_bit 4 b2 AND 0x0F)),
                        px_g := px_g px + word_of_int vg,
                        px_b := px_b px + word_of_int (vg - 8 + uint (b2 AND 0x0F))\<rparr>,
                     q_run st))
                 })
              else if b1 AND QOI_MASK_2 = QOI_OP_RUN then
                Some (Inr (src_pos, px, uint (b1 AND 0x3F)))
              else Some (Inr (src_pos, px, q_run st)))
           of None \<Rightarrow> None
           | Some (Inl e) \<Rightarrow> Some (Inl e)
           | Some (Inr (src_pos', px', run')) \<Rightarrow>
               (case wr (q_index st)
                       (qoi_color_hash (px_r px') (px_g px') (px_b px') (px_a px')) px' of
                  None \<Rightarrow> None
                | Some index' \<Rightarrow>
                    Some (Inr (st\<lparr>q_src_pos := src_pos', q_px := px', q_run := run',
                                   q_index := index'\<rparr>)))))"

text \<open>The bytes of the current pixel are appended at \<open>dst_pos\<close>.\<close>

definition qoi_emit :: "byte \<Rightarrow> qoi_state \<Rightarrow> qoi_state option" where
  "qoi_emit channels st =
     (let px = q_px st; d = q_dst_pos st in
      if channels = 4 then do {
        p1 \<leftarrow> wr (q_pixels st) d (px_r px);
        p2 \<leftarrow> wr p1 (d + 1) (px_g px);
        p3 \<leftarrow> wr p2 (d + 2) (px_b px);
        p4 \<leftarrow> wr p3 (d + 3) (px_a px);
        Some (st\<lparr>q_dst_pos := d + 4, q_pixels := p4\<rparr>)
      }
      else do {
        p1 \<leftarrow> wr (q_pixels st) d (px_r px);
        p2 \<leftarrow> wr p1 (d + 1) (px_g px);
        p3 \<leftarrow> wr p2 (d + 2) (px_b px);
        Some (st\<lparr>q_dst_pos := d + 3, q_pixels := p3\<rparr>)
      })"

text \<open>One iteration of the pixel loop.\<close>

definition qoi_step ::
  "byte list \<Rightarrow> nat \<Rightarrow> byte \<Rightarrow> qoi_state \<Rightarrow> (decode_result + qoi_state) option" where
  "qoi_step data src_end channels st =
     (case
        (if q_run st > 0 then Some (Inr (st\<lparr>q_run := q_run st - 1\<rparr>))
         else if q_src_pos st < src_end then qoi_chunk data src_end st
         else Some (Inr st))
      of None \<Rightarrow> None
      | Some (Inl e) \<Rightarrow> Some (Inl e)
      | Some (Inr st1) \<Rightarrow> map_option Inr (qoi_emit channels st1))"

text \<open>The pixel loop, with the number of iterations that are left.\<close>

fun qoi_loop ::
  "byte list \<Rightarrow> nat \<Rightarrow> byte \<Rightarrow> nat \<Rightarrow> qoi_state \<Rightarrow> (decode_result + qoi_state) option" where
  "qoi_loop data src_end channels 0 st = Some (Inr st)"
| "qoi_loop data src_end channels (Suc n) st =
     (case qoi_step data src_end channels st of None \<Rightarrow> None
      | Some (Inl e) \<Rightarrow> Some (Inl e)
      | Some (Inr st') \<Rightarrow> qoi_loop data src_end channels n st')"

definition qoi_init :: "nat \<Rightarrow> qoi_state" where
  "qoi_init n =
     \<lparr>q_src_pos = QOI_HEADER_SIZE, q_dst_pos = 0, q_run = 0,
      q_px = \<lparr>px_r = 0, px_g = 0, px_b = 0, px_a = 255\<rparr>,
      q_index = replicate 64 \<lparr>px_r = 0, px_g = 0, px_b = 0, px_a = 0\<rparr>,
      q_pixels = replicate n 0\<rparr>"

definition qoi_sniff :: "byte list \<Rightarrow> bool option" where
  "qoi_sniff data =
     (if length data < QOI_HEADER_SIZE then Some False
      else do {
        magic \<leftarrow> read_be32 data 0;
        if magic \<noteq> QOI_MAGIC then Some False
        else do {
          w \<leftarrow> read_be32 data 4;
          h \<leftarrow> read_be32 data 8;
          if w = 0 \<or> h = 0 then Some False
          else do {
            channels \<leftarrow> rd data 12;
            if channels \<noteq> 3 \<and> channels \<noteq> 4 then Some False
            else do {
              colorspace \<leftarrow> rd data 13;
              if colorspace > 1 then Some False else Some True
            }
          }
        }
      })"

definition qoi_decode ::
  "byte list \<Rightarrow> memory_surface \<Rightarrow> decode_options \<Rightarrow> bool \<Rightarrow> (decode_result \<times> memory_surface) option" where
  "qoi_decode data surf options resize_ok =
     (if length data < QOI_HEADER_SIZE + QOI_END_MARKER_SIZE then
        Some (failure truncated_data ''QOI file too small'', surf)
      else do {
        magic \<leftarrow> read_be32 data 0;
        if magic \<noteq> QOI_MAGIC then Some (failure invalid_format ''Invalid QOI magic'', surf)
        else do {
          w \<leftarrow> read_be32 data 4;
          h \<leftarrow> read_be32 data 8;
          channels \<leftarrow> rd data 12;
          if w = 0 \<or> h = 0 then Some (failure invalid_format ''Invalid QOI dimensions'', surf)
          else if channels \<noteq> 3 \<and> channels \<noteq> 4 then
            Some (failure invalid_format ''Invalid QOI channel count'', surf)
          else
            let result = validate_dimensions (sint w) (sint h) options DEFAULT_MAX_DIMENSION in
            if \<not> ok result then Some (result, surf)
            else
              let total_pixels = unat w * unat h in
              if total_pixels > MAX_PIXELS then
                Some (failure dimensions_exceeded ''QOI image too large'', surf)
              else
                let fmt = (if channels = 4 then rgba8888 else rgb888) in
                (case set_size (sint w) (sint h) fmt resize_ok surf of
                   (False, surf1) \<Rightarrow>
                     Some (failure internal_error ''Failed to allocate surface'', surf1)
                 | (True, surf1) \<Rightarrow>
                     let pixel_count = unat w * unat h;
                         src_end = length data - QOI_END_MARKER_SIZE
                     in
                     (case qoi_loop data src_end channels pixel_count
                             (qoi_init (pixel_count * unat channels)) of
                        None \<Rightarrow> None
                      | Some (Inl e) \<Rightarrow> Some (e, surf1)
                      | Some (Inr st) \<Rightarrow>
                          map_option (\<lambda>surf2. (success, surf2))
                            (write_rows surf1 (q_pixels st) (unat w * unat channels) (sint h))))
        }
      })"

section \<open>PNG (png.cpp)\<close>

type_synonym lodepng_encode_fn = "byte list \<Rightarrow> u32 \<Rightarrow> u32 \<Rightarrow> byte list option"






text \<open>
  The conversion of \<open>encode_png\<close> to RGBA. \<open>w\<close> and \<open>h\<close> are \<open>unsigned\<close>, and so are the
  products \<open>w * h\<close>, \<open>w * h * 4\<close>, \<open>i * 4\<close> and \<open>i * 3\<close>: they are computed on 32-bit
  words. The destination is written through a raw pointer into the resized vector.
\<close>

definition rgb_to_rgba_pixel :: "byte list \<Rightarrow> nat \<Rightarrow> byte list \<Rightarrow> byte list option" where
  "rgb_to_rgba_pixel src i dst = do {
     c0 \<leftarrow> rd src (unat (word_of_nat i * 3 + 0 :: u32));
     d0 \<leftarrow> wr dst (unat (word_of_nat i * 4 + 0 :: u32)) c0;
     c1 \<leftarrow> rd src (unat (word_of_nat i * 3 + 1 :: u32));
     d1 \<leftarrow> wr d0 (unat (word_of_nat i * 4 + 1 :: u32)) c1;
     c2 \<leftarrow> rd src (unat (word_of_nat i * 3 + 2 :: u32));
     d2 \<leftarrow> wr d1 (unat (word_of_nat i * 4 + 2 :: u32)) c2;
     wr d2 (unat (word_of_nat i * 4 + 3 :: u32)) 255
   }"

definition indexed_to_rgba_pixel ::
  "byte list \<Rightarrow> byte list \<Rightarrow> nat \<Rightarrow> byte list \<Rightarrow> byte list option" where
  "indexed_to_rgba_pixel indices pal i dst = do {
     v \<leftarrow> rd indices i;
     let idx = unat v;
     let pal_offset = idx * 3;
     d2 \<leftarrow>
       (if pal_offset + 2 < length pal then do {
          c0 \<leftarrow> rd pal (pal_offset + 0);
          d0 \<leftarrow> wr dst (unat (word_of_nat i * 4 + 0 :: u32)) c0;
          c1 \<leftarrow> rd pal (pal_offset + 1);
          d1 \<leftarrow> wr d0 (unat (word_of_nat i * 4 + 1 :: u32)) c1;
          c2 \<leftarrow> rd pal (pal_offset + 2);
          wr d1 (unat (word_of_nat i * 4 + 2 :: u32)) c2
        }
        else do {
          d0 \<leftarrow> wr dst (unat (word_of_nat i * 4 + 0 :: u32)) 0;
          d1 \<leftarrow> wr d0 (unat (word_of_nat i * 4 + 1 :: u32)) 0;
          wr d1 (unat (word_of_nat i * 4 + 2 :: u32)) 0
        });
     wr d2 (unat (word_of_nat i * 4 + 3 :: u32)) 255
   }"

definition to_rgba :: "memory_surface \<Rightarrow> byte list option" where
  "to_rgba surf =
     (let w = (word_of_int (width surf) :: u32); h = (word_of_int (height surf) :: u32) in
      case format surf of
        rgba8888 \<Rightarrow> Some (pixels surf)
      | rgb888 \<Rightarrow>
          for_loop [0..<unat (w * h)] (rgb_to_rgba_pixel (pixels surf))
            (replicate (unat (w * h * 4)) 0)
      | indexed8 \<Rightarrow>
          for_loop [0..<unat (w * h)] (indexed_to_rgba_pixel (pixels surf) (palette surf))
            (replicate (unat (w * h * 4)) 0))"

definition encode_png :: "lodepng_encode_fn \<Rightarrow> memory_surface \<Rightarrow> byte list option" where
  "encode_png lodepng_encode surf =
     (if width surf \<le> 0 \<or> height surf \<le> 0 then Some []
      else
        (case to_rgba surf of None \<Rightarrow> None
         | Some rgba_pixels \<Rightarrow>
             (case lodepng_encode rgba_pixels (word_of_int (width surf)) (word_of_int (height surf)) of
                None \<Rightarrow> Some []
              | Some png_data \<Rightarrow> Some png_data)))"

section \<open>ICO (ico.cpp)\<close>

text \<open>\<open>static_cast<std::size_t>\<close> of an \<open>int\<close>: a negative value wraps around.\<close>

definition size_of_int :: "int \<Rightarrow> nat" where
  "size_of_int i = (if i \<ge> 0 then nat i else nat (2 ^ 64 + i))"




record ico_header =
  hdr_reserved :: u16
  hdr_type :: u16
  hdr_count :: u16




text \<open>
  The parsers return a flag and fill a header. In the model the inner \<open>option\<close> is
  \<open>None\<close> when the flag is \<open>false\<close>; the header is used by no caller in that case.
\<close>

definition parse_ico_header :: "byte list \<Rightarrow> ico_header option option" where
  "parse_ico_header data =
     (if length data < 6 then Some None
      else do {
        reserved \<leftarrow> read_le16 data 0;
        type \<leftarrow> read_le16 data 2;
        count \<leftarrow> read_le16 data 4;
        if reserved = 0 \<and> (type = 1 \<or> type = 2)
        then Some (Some \<lparr>hdr_reserved = reserved, hdr_type = type, hdr_count = count\<rparr>)
        else Some None
      })"

















definition ico_sniff :: "byte list \<Rightarrow> bool option" where
  "ico_sniff data =
     (if length data < 6 then Some False
      else map_option (\<lambda>r. case r of None \<Rightarrow> False | Some header \<Rightarrow> hdr_count header > 0)
             (parse_ico_header data))"


section \<open>Decoder wrappers (codec.cpp)\<close>

text \<open>
  The wrapper classes that put a codec into the registry. The outcome of the surface
  allocation is fixed when the wrapper is made.
\<close>

definition koala_decoder_impl :: "bool \<Rightarrow> decoder" where
  "koala_decoder_impl resize_ok =
     \<lparr>dec_name = ''koala'', dec_extensions = [''.koa'', ''.kla'', ''.koala'', ''.gg'', ''.gig''],
      dec_sniff = koala_sniff,
      dec_decode = (\<lambda>data surf options. koala_decode data surf options resize_ok)\<rparr>"

definition drazlace_decoder_impl :: "bool \<Rightarrow> decoder" where
  "drazlace_decoder_impl resize_ok =
     \<lparr>dec_name = ''drazlace'', dec_extensions = [''.drl''],
      dec_sniff = drazlace_sniff,
      dec_decode = (\<lambda>data surf options. drazlace_decode data surf options resize_ok)\<rparr>"

section \<open>Auxiliary notions for the proofs\<close>

text \<open>Two surfaces of the same shape: all members equal except the pixel bytes.\<close>

definition same_shape :: "memory_surface \<Rightarrow> memory_surface \<Rightarrow> bool" where
  "same_shape s t \<longleftrightarrow> width t = width s \<and> height t = height s \<and> format t = format s \<and>
     pitch t = pitch s \<and> length (pixels t) = length (pixels s) \<and> palette t = palette s \<and>
     subrects t = subrects s"

text \<open>A small GG-compressed Koala file: load address \<open>0x6000\<close>, forty runs, one literal.\<close>

definition gg_sample :: "byte list" where
  "gg_sample = [0x00, 0x60] @ concat (replicate 40 [0xFE, 1, 250]) @ [1]"

text \<open>
  A QOI file with a valid header: at least header and end marker, the magic, non-zero
  width \<open>w\<close> and height \<open>h\<close>, and 3 or 4 channels.
\<close>

definition qoi_header :: "byte list \<Rightarrow> u32 \<Rightarrow> u32 \<Rightarrow> byte \<Rightarrow> bool" where
  "qoi_header data w h channels \<longleftrightarrow>
     QOI_HEADER_SIZE + QOI_END_MARKER_SIZE \<le> length data \<and>
     read_be32 data 0 = Some QOI_MAGIC \<and> read_be32 data 4 = Some w \<and>
     read_be32 data 8 = Some h \<and> rd data 12 = Some channels \<and>
     w \<noteq> 0 \<and> h \<noteq> 0 \<and> (channels = 3 \<or> channels = 4)"

text \<open>The bytes that the QOI loop stores for one pixel.\<close>

definition px_bytes :: "byte \<Rightarrow> rgba_t \<Rightarrow> byte list" where
  "px_bytes channels px =
     (if channels = 4 then [px_r px, px_g px, px_b px, px_a px] else [px_r px, px_g px, px_b px])"

text \<open>The decode errors that are defined failures of a decoder.\<close>

definition defined_result :: "decode_result \<Rightarrow> bool" where
  "defined_result r \<longleftrightarrow>
     r = success \<or>
     (\<not> ok r \<and> error r \<in> {truncated_data, invalid_format, dimensions_exceeded, internal_error})"

subsection \<open>QOI loop invariants and sample files\<close>

text \<open>
  Postconditions of the QOI loop, used as loop invariants: what one chunk, one stored
  pixel, \<open>m\<close> iterations, and \<open>m\<close> iterations after the end of the chunk stream leave behind.
\<close>

definition chunk_ok :: "qoi_state \<Rightarrow> decode_result + qoi_state \<Rightarrow> bool" where
  "chunk_ok st r =
     (case r of
        Inl e \<Rightarrow> \<not> ok e \<and> error e = truncated_data
      | Inr st' \<Rightarrow> length (q_index st') = 64 \<and> q_dst_pos st' = q_dst_pos st \<and>
          q_pixels st' = q_pixels st)"

definition emit_ok :: "byte \<Rightarrow> qoi_state \<Rightarrow> qoi_state \<Rightarrow> bool" where
  "emit_ok ch st st' \<longleftrightarrow>
     q_dst_pos st' = q_dst_pos st + unat ch \<and> length (q_pixels st') = length (q_pixels st) \<and>
     take (q_dst_pos st + unat ch) (q_pixels st') =
       take (q_dst_pos st) (q_pixels st) @ px_bytes ch (q_px st) \<and>
     q_px st' = q_px st \<and> q_index st' = q_index st \<and> q_src_pos st' = q_src_pos st \<and>
     q_run st' = q_run st"

definition step_ok :: "byte \<Rightarrow> nat \<Rightarrow> qoi_state \<Rightarrow> decode_result + qoi_state \<Rightarrow> bool" where
  "step_ok ch m st r =
     (case r of
        Inl e \<Rightarrow> \<not> ok e \<and> error e = truncated_data
      | Inr st' \<Rightarrow> length (q_index st') = 64 \<and> q_dst_pos st' = q_dst_pos st + m * unat ch \<and>
          length (q_pixels st') = length (q_pixels st))"

definition pad_ok :: "byte \<Rightarrow> nat \<Rightarrow> qoi_state \<Rightarrow> qoi_state \<Rightarrow> bool" where
  "pad_ok ch m st st' \<longleftrightarrow>
     q_dst_pos st' = q_dst_pos st + m * unat ch \<and> length (q_pixels st') = length (q_pixels st) \<and>
     take (q_dst_pos st + m * unat ch) (q_pixels st') =
       take (q_dst_pos st) (q_pixels st) @ concat (replicate m (px_bytes ch (q_px st))) \<and>
     q_px st' = q_px st \<and> q_src_pos st' = q_src_pos st"

text \<open>
  A QOI file of a 2 by 1 RGB image: header, one RGB chunk, one run chunk, end marker.
  \<open>qoi_sample_state\<close> is the loop state after its first pixel.
\<close>

definition qoi_sample :: "byte list" where
  "qoi_sample = [0x71, 0x6F, 0x69, 0x66, 0, 0, 0, 2, 0, 0, 0, 1, 3, 0] @
     [0xFE, 10, 20, 30, 0xC0] @ [0, 0, 0, 0, 0, 0, 0, 1]"

definition qoi_sample_image :: memory_surface where
  "qoi_sample_image =
     \<lparr>pixels = [10, 20, 30, 10, 20, 30], palette = [], subrects = [],
      width = 2, height = 1, pitch = 6, format = rgb888\<rparr>"

definition qoi_sample_state :: qoi_state where
  "qoi_sample_state =
     \<lparr>q_src_pos = 18, q_dst_pos = 3, q_run = 0,
      q_px = \<lparr>px_r = 10, px_g = 20, px_b = 30, px_a = 255\<rparr>,
      q_index = (replicate 64 \<lparr>px_r = 0, px_g = 0, px_b = 0, px_a = 0\<rparr>)
         [9 := \<lparr>px_r = 10, px_g = 20, px_b = 30, px_a = 255\<rparr>],
      q_pixels = [10, 20, 30, 0, 0, 0]\<rparr>"

text \<open>
  A QOI file that declares a 1 by 2 RGBA image and holds a single RGBA chunk.
\<close>

definition qoi_short :: "byte list" where
  "qoi_short = [0x71, 0x6F, 0x69, 0x66, 0, 0, 0, 1, 0, 0, 0, 2, 4, 0] @
     [0xFF, 1, 2, 3, 4] @ [0, 0, 0, 0, 0, 0, 0, 1]"

definition qoi_short_state :: qoi_state where
  "qoi_short_state =
     \<lparr>q_src_pos = 19, q_dst_pos = 4, q_run = 0,
      q_px = \<lparr>px_r = 1, px_g = 2, px_b = 3, px_a = 4\<rparr>,
      q_index = (replicate 64 \<lparr>px_r = 0, px_g = 0, px_b = 0, px_a = 0\<rparr>)
         [14 := \<lparr>px_r = 1, px_g = 2, px_b = 3, px_a = 4\<rparr>],
      q_pixels = [1, 2, 3, 4, 0, 0, 0, 0]\<rparr>"


subsection \<open>The atlas as the specification describes it\<close>






















section \<open>Tiny Stuff (atarist.cpp)\<close>

text \<open>\<open>read_be16\<close> of byte_io.hpp, with the bounds check of the model.\<close>

definition read_be16 :: "byte list \<Rightarrow> nat \<Rightarrow> u16 option" where
  "read_be16 data p = do {
     b0 \<leftarrow> rd data p;
     b1 \<leftarrow> rd data (p + 1);
     Some (push_bit 8 (ucast b0) OR ucast b1)
   }"

text \<open>The three bytes that \<open>st_color_to_rgb\<close> stores for a colour of the ST.\<close>

definition st_color_to_rgb :: "u16 \<Rightarrow> byte list" where
  "st_color_to_rgb st_color =
     (let r = drop_bit 8 st_color AND 7;
          g = drop_bit 4 st_color AND 7;
          b = st_color AND 7
      in [ucast (push_bit 5 r OR push_bit 2 r OR drop_bit 1 r),
          ucast (push_bit 5 g OR push_bit 2 g OR drop_bit 1 g),
          ucast (push_bit 5 b OR push_bit 2 b OR drop_bit 1 b)])"

text \<open>
  \<open>decode_st_bitplanes\<close>: the source is read through \<open>src + y * src_stride\<close>, the
  destination has \<open>width * height\<close> bytes.
\<close>

definition decode_st_bitplanes ::
  "byte list \<Rightarrow> nat \<Rightarrow> byte list \<Rightarrow> int \<Rightarrow> int \<Rightarrow> int \<Rightarrow> byte list option" where
  "decode_st_bitplanes src src_stride dst wd ht bitplanes =
     for_loop [0..<nat ht]
       (\<lambda>y. for_loop [0..<nat wd]
          (\<lambda>x d.
             let row = y * src_stride;
                 group = x div 16;
                 bit_pos = 15 - x mod 16;
                 base = group * nat bitplanes * 2
             in
             case for_loop [0..<nat bitplanes]
                    (\<lambda>plane pixel.
                       map_option
                         (\<lambda>word. if word AND push_bit bit_pos 1 \<noteq> 0
                                  then pixel OR push_bit plane 1 else pixel)
                         (read_be16 src (row + base + plane * 2)))
                    (0 :: byte)
             of None \<Rightarrow> None
             | Some pixel \<Rightarrow> wr d (y * nat wd + x) pixel))
       dst"

text \<open>
  The members of \<open>tny_stream_reader\<close> that change; \<open>data_\<close> and \<open>size_\<close> are the input
  and its length.
\<close>

record tny_stream_reader =
  ctrl_pos :: nat
  ctrl_end :: nat
  val_pos :: nat
  val_end :: nat
  repeat_count :: int
  repeat_value :: int

definition tny_init :: "nat \<Rightarrow> nat \<Rightarrow> nat \<Rightarrow> nat \<Rightarrow> tny_stream_reader" where
  "tny_init ctrl_offset ctrl_len val_offset val_len =
     \<lparr>ctrl_pos = ctrl_offset, ctrl_end = ctrl_offset + ctrl_len,
      val_pos = val_offset, val_end = val_offset + val_len,
      repeat_count = 0, repeat_value = 0\<rparr>"

definition tny_read_ctrl_byte ::
  "byte list \<Rightarrow> tny_stream_reader \<Rightarrow> (int \<times> tny_stream_reader) option" where
  "tny_read_ctrl_byte data st =
     (if ctrl_pos st \<ge> ctrl_end st \<or> ctrl_pos st \<ge> length data then Some (- 1, st)
      else map_option (\<lambda>b. (uint b, st\<lparr>ctrl_pos := ctrl_pos st + 1\<rparr>)) (rd data (ctrl_pos st)))"

definition tny_read_value ::
  "byte list \<Rightarrow> tny_stream_reader \<Rightarrow> (int \<times> tny_stream_reader) option" where
  "tny_read_value data st =
     (if val_pos st + 1 \<ge> val_end st \<or> val_pos st + 1 \<ge> length data then Some (- 1, st)
      else do {
        hi \<leftarrow> rd data (val_pos st);
        lo \<leftarrow> rd data (val_pos st + 1);
        Some (push_bit 8 (uint hi) OR uint lo, st\<lparr>val_pos := val_pos st + 2\<rparr>)
      })"

text \<open>
  \<open>read_command\<close>. The extended count is read after a check against \<open>ctrl_end_\<close> only.
  A failed \<open>read_value\<close> leaves \<open>- 1\<close> in \<open>repeat_value_\<close>.
\<close>

definition tny_read_command ::
  "byte list \<Rightarrow> tny_stream_reader \<Rightarrow> (bool \<times> tny_stream_reader) option" where
  "tny_read_command data st =
     (case tny_read_ctrl_byte data st of None \<Rightarrow> None
      | Some (b, st1) \<Rightarrow>
          if b < 0 then Some (False, st1)
          else if b < 128 then
            (case
               (if b = 0 \<or> b = 1 then
                  (if ctrl_pos st1 + 1 \<ge> ctrl_end st1 then Some None
                   else do {
                     hi \<leftarrow> rd data (ctrl_pos st1);
                     lo \<leftarrow> rd data (ctrl_pos st1 + 1);
                     Some (Some (st1\<lparr>repeat_count := push_bit 8 (uint hi) OR uint lo,
                                     ctrl_pos := ctrl_pos st1 + 2\<rparr>))
                   })
                else Some (Some (st1\<lparr>repeat_count := b\<rparr>)))
             of None \<Rightarrow> None
             | Some None \<Rightarrow> Some (False, st1)
             | Some (Some st2) \<Rightarrow>
                 if b = 1 then Some (True, st2\<lparr>repeat_value := - 1\<rparr>)
                 else
                   (case tny_read_value data st2 of None \<Rightarrow> None
                    | Some (v, st3) \<Rightarrow> Some (True, st3\<lparr>repeat_value := v\<rparr>)))
          else Some (True, st1\<lparr>repeat_count := 256 - b, repeat_value := - 1\<rparr>))"

text \<open>
  \<open>read_rle\<close>. Its \<open>while\<close> loop ends: each command that is read moves \<open>ctrl_pos_\<close>
  towards \<open>ctrl_end_\<close>.
\<close>

function tny_read_rle ::
  "byte list \<Rightarrow> tny_stream_reader \<Rightarrow> (int \<times> tny_stream_reader) option" where
  "tny_read_rle data st =
     (if repeat_count st = 0 then
        (case tny_read_command data st of None \<Rightarrow> None
         | Some (ok_flag, st1) \<Rightarrow>
             if \<not> ok_flag then Some (- 1, st1) else tny_read_rle data st1)
      else
        let st1 = st\<lparr>repeat_count := repeat_count st - 1\<rparr> in
        if repeat_value st1 \<ge> 0 then Some (repeat_value st1, st1)
        else tny_read_value data st1)"
  by pat_completeness auto
termination
  by (relation "measure (\<lambda>(data, st). ctrl_end st - ctrl_pos st)")
    (auto simp: tny_read_command_def tny_read_ctrl_byte_def tny_read_value_def Let_def
       bind_eq_Some_conv split: if_splits option.splits)

text \<open>A \<open>for\<close> loop whose body may return from the decoder with a result.\<close>

fun for_loop_r ::
  "nat list \<Rightarrow> (nat \<Rightarrow> 's \<Rightarrow> (decode_result + 's) option) \<Rightarrow> 's \<Rightarrow> (decode_result + 's) option" where
  "for_loop_r [] body s = Some (Inr s)"
| "for_loop_r (i # is) body s =
     (case body i s of None \<Rightarrow> None
      | Some (Inl e) \<Rightarrow> Some (Inl e)
      | Some (Inr s') \<Rightarrow> for_loop_r is body s')"

text \<open>
  The three loops of \<open>tiny_stuff_decoder::decode\<close> that fill the bitmap: \<open>bitplane\<close>
  runs over 0, 2, 4, 6, and \<open>x\<close> from \<open>bitplane\<close> in steps of 8 while it is below 160.
\<close>

definition tny_store ::
  "byte list \<Rightarrow> nat \<Rightarrow> tny_stream_reader \<times> byte list \<Rightarrow>
   (decode_result + tny_stream_reader \<times> byte list) option" where
  "tny_store data offset s =
     (case s of (reader, bitmap) \<Rightarrow>
        (case tny_read_rle data reader of None \<Rightarrow> None
         | Some (b, reader') \<Rightarrow>
             if b < 0 then
               Some (Inl (failure unsupported_encoding ''TNY decompression failed''))
             else do {
               b1 \<leftarrow> wr bitmap offset (word_of_int (drop_bit 8 b));
               b2 \<leftarrow> wr b1 (offset + 1) (word_of_int (b AND 0xFF));
               Some (Inr (reader', b2))
             }))"

definition tny_unpack ::
  "byte list \<Rightarrow> tny_stream_reader \<Rightarrow> byte list \<Rightarrow>
   (decode_result + tny_stream_reader \<times> byte list) option" where
  "tny_unpack data reader bitmap =
     for_loop_r [0, 2, 4, 6]
       (\<lambda>bitplane. for_loop_r (map (\<lambda>k. bitplane + 8 * k) [0..<(160 - bitplane + 7) div 8])
          (\<lambda>x. for_loop_r [0..<200] (\<lambda>y. tny_store data (y * 160 + x))))
       (reader, bitmap)"

text \<open>The \<open>switch\<close> on the mode: width, height, bit planes and colours.\<close>

definition tny_mode_info :: "int \<Rightarrow> (int \<times> int \<times> int \<times> int) option" where
  "tny_mode_info mode =
     (if mode = 0 then Some (320, 200, 4, 16)
      else if mode = 1 then Some (640, 200, 2, 4)
      else if mode = 2 then Some (640, 400, 1, 2)
      else None)"

text \<open>The palette loop: \<open>num_colors\<close> colours are read at \<open>pal_ptr\<close>.\<close>

definition tny_palette :: "byte list \<Rightarrow> nat \<Rightarrow> nat \<Rightarrow> byte list option" where
  "tny_palette data pal_ptr num_colors =
     for_loop [0..<num_colors]
       (\<lambda>i pal. do {
          st_color \<leftarrow> read_be16 data (pal_ptr + i * 2);
          let rgb = st_color_to_rgb st_color;
          p0 \<leftarrow> wr pal (i * 3) (rgb ! 0);
          p1 \<leftarrow> wr p0 (i * 3 + 1) (rgb ! 1);
          wr p1 (i * 3 + 2) (rgb ! 2)
        })
       (replicate (256 * 3) 0)"

text \<open>
  The part of \<open>tiny_stuff_decoder::decode\<close> after the bitmap is unpacked. The stride
  passed to \<open>decode_st_bitplanes\<close> is the constant 160.
\<close>

definition tny_decode_image ::
  "byte list \<Rightarrow> nat \<Rightarrow> int \<Rightarrow> byte list \<Rightarrow> memory_surface \<Rightarrow> decode_options \<Rightarrow> bool \<Rightarrow>
   (decode_result \<times> memory_surface) option" where
  "tny_decode_image data content_offset mode bitmap surf options resize_ok =
     (case tny_mode_info mode of
        None \<Rightarrow> Some (failure unsupported_version ''Unknown resolution'', surf)
      | Some (wd, ht, bitplanes, num_colors) \<Rightarrow>
          let dim_result = validate_dimensions wd ht options DEFAULT_MAX_DIMENSION in
          if \<not> ok dim_result then Some (dim_result, surf)
          else
            (case set_size wd ht indexed8 resize_ok surf of
               (False, surf1) \<Rightarrow>
                 Some (failure internal_error ''Failed to allocate surface'', surf1)
             | (True, surf1) \<Rightarrow> do {
                 palette \<leftarrow> tny_palette data (content_offset + 1) (nat num_colors);
                 let surf2 = write_palette 0 (take (nat num_colors * 3) palette)
                               (set_palette_size num_colors surf1);
                 let stride = 160;
                 pixels \<leftarrow> decode_st_bitplanes bitmap stride (replicate (nat (wd * ht)) 0)
                             wd ht bitplanes;
                 surf3 \<leftarrow> for_loop [0..<nat ht]
                            (\<lambda>y. write_pixels 0 (int y) wd (Some (drop (y * nat wd) pixels)))
                            surf2;
                 Some (success, surf3)
               }))"

definition tiny_stuff_decode ::
  "byte list \<Rightarrow> memory_surface \<Rightarrow> decode_options \<Rightarrow> bool \<Rightarrow> (decode_result \<times> memory_surface) option" where
  "tiny_stuff_decode data surf options resize_ok =
     (if length data < 42 then Some (failure truncated_data ''TNY file too small'', surf)
      else
        (case rd data 0 of None \<Rightarrow> None
         | Some m \<Rightarrow>
             if uint m > 2 \<and> uint m > 5 then
               Some (failure unsupported_version ''Invalid TNY mode'', surf)
             else
               let mode = (if uint m > 2 then uint m - 3 else uint m);
                   content_offset = (if uint m > 2 then 4 else 0)
               in do {
                 c_hi \<leftarrow> rd data (content_offset + 33);
                 c_lo \<leftarrow> rd data (content_offset + 34);
                 v_hi \<leftarrow> rd data (content_offset + 35);
                 v_lo \<leftarrow> rd data (content_offset + 36);
                 let control_length = nat (push_bit 8 (uint c_hi) OR uint c_lo);
                 let value_length = push_bit 1 (nat (push_bit 8 (uint v_hi) OR uint v_lo));
                 if content_offset + 37 + control_length + value_length > length data then
                   Some (failure truncated_data ''TNY file truncated'', surf)
                 else
                   (case tny_unpack data
                           (tny_init (content_offset + 37) control_length
                              (content_offset + 37 + control_length) value_length)
                           (replicate 32000 0)
                    of None \<Rightarrow> None
                    | Some (Inl e) \<Rightarrow> Some (e, surf)
                    | Some (Inr (reader, bitmap)) \<Rightarrow>
                        tny_decode_image data content_offset mode bitmap surf options resize_ok)
               }))"

subsection \<open>A Tiny Stuff file in high resolution\<close>

text \<open>
  A file of 42 bytes: mode 2, sixteen palette words, control length 3, one value word,
  the command \<open>0, 0x3E, 0x80\<close> (repeat the next value 16000 times) and the value 0.
\<close>

definition tny_sample :: "byte list" where
  "tny_sample =
     [2,
      0, 0, 0, 0, 0, 0, 0, 0, 0, 0, 0, 0, 0, 0, 0, 0,
      0, 0, 0, 0, 0, 0, 0, 0, 0, 0, 0, 0, 0, 0, 0, 0,
      0, 3, 0, 1,
      0, 0x3E, 0x80,
      0, 0]"

text \<open>
  The states of the reader on \<open>tny_sample\<close> with \<open>n\<close> words of the run left: before the
  command is read, and in the run.
\<close>

definition tny_sample_state :: "nat \<Rightarrow> tny_stream_reader \<Rightarrow> bool" where
  "tny_sample_state n st \<longleftrightarrow>
     ctrl_end st = 40 \<and> val_end st = 42 \<and>
     (ctrl_pos st = 37 \<and> val_pos st = 40 \<and> repeat_count st = 0 \<and> n = 16000 \<or>
      ctrl_pos st = 40 \<and> val_pos st = 42 \<and> repeat_value st = 0 \<and> repeat_count st = int n)"

section \<open>Properties of the surface\<close>

lemma length_copy_bytes:
  "off + length src \<le> length dst \<Longrightarrow> length (copy_bytes dst off src) = length dst"
  by (simp add: copy_bytes_def)

lemma write_pixels_cases:
  assumes "write_pixels x y c p s = Some s'"
  obtains "s' = s"
  | src n off where "p = Some src" "n \<le> length src" "off + n \<le> length (pixels s)"
      "s' = s\<lparr>pixels := copy_bytes (pixels s) off (take n src)\<rparr>"
proof (cases "y < 0 \<or> y \<ge> height s \<or> x < 0 \<or> c \<le> 0 \<or> p = None")
  case True
  with assms have "s' = s" by (simp add: write_pixels_def)
  then show ?thesis by (rule that(1))
next
  case guard: False
  then obtain src where src: "p = Some src" by auto
  show ?thesis
  proof (cases "nat x \<ge> pitch s")
    case True
    with assms guard have "s' = s" by (simp add: write_pixels_def Let_def)
    then show ?thesis by (rule that(1))
  next
    case nx: False
    define n where "n = min (nat c) (pitch s - nat x)"
    define off where "off = nat y * pitch s + nat x"
    show ?thesis
    proof (cases "off + n \<le> length (pixels s)")
      case True
      with assms guard nx src
      have "n \<le> length src \<and> s' = s\<lparr>pixels := copy_bytes (pixels s) off (take n src)\<rparr>"
        by (simp add: write_pixels_def Let_def n_def off_def split: if_splits)
      with that(2) [OF src _ True] show ?thesis by blast
    next
      case False
      with assms guard nx have "s' = s"
        by (simp add: write_pixels_def Let_def n_def off_def)
      then show ?thesis by (rule that(1))
    qed
  qed
qed

lemma write_pixels_inv:
  assumes "write_pixels x y c p s = Some s'"
  shows "length (pixels s') = length (pixels s)" "palette s' = palette s"
    "width s' = width s" "height s' = height s" "format s' = format s"
    "pitch s' = pitch s" "subrects s' = subrects s"
  using assms
  by (elim write_pixels_cases; simp add: length_copy_bytes)+

lemma set_size_inv:
  "pixels_inv (snd (set_size w h f True s)) = (fst (set_size w h f True s) \<or> pixels_inv s)"
  "palette_inv s \<Longrightarrow> palette_inv (snd (set_size w h f True s))"
  by (simp_all add: set_size_def pixels_inv_def palette_inv_def Let_def)

lemma write_palette_length:
  "length (palette (write_palette i cs s)) = length (palette s)"
  by (simp add: write_palette_def Let_def length_copy_bytes)

lemma apply_op_inv:
  assumes "apply_op c s = Some s'" "pixels_inv s" "palette_inv s"
    "case c of Set_size w h f a \<Rightarrow> a | _ \<Rightarrow> True"
  shows "pixels_inv s' \<and> palette_inv s'"
proof (cases c)
  case (Set_size w h f a)
  with assms have "a" and s': "s' = snd (set_size w h f True s)" by auto
  show ?thesis unfolding s'
    using assms(2,3) set_size_inv [where w=w and h=h and f=f and s=s] by simp
next
  case (Write_pixels x y n p)
  with assms write_pixels_inv [where x=x and y=y and c=n and p=p and s=s and s'=s'] show ?thesis
    by (simp add: pixels_inv_def palette_inv_def)
next
  case (Write_pixel x y v)
  with assms have s': "s' = write_pixel x y v s" by simp
  show ?thesis unfolding s'
    using assms(2,3) by (simp add: write_pixel_def pixels_inv_def palette_inv_def Let_def)
next
  case (Set_palette_size n)
  with assms have s': "s' = set_palette_size n s" by simp
  have "0 < n \<Longrightarrow> n \<le> 256 \<Longrightarrow> nat n * 3 \<le> 768" by arith
  then show ?thesis unfolding s'
    using assms(2,3) by (simp add: set_palette_size_def pixels_inv_def palette_inv_def)
next
  case (Write_palette i cs)
  with assms have s': "s' = write_palette i cs s" by simp
  have "pixels (write_palette i cs s) = pixels s" "width (write_palette i cs s) = width s"
    "height (write_palette i cs s) = height s" "format (write_palette i cs s) = format s"
    by (simp_all add: write_palette_def Let_def)
  then show ?thesis unfolding s'
    using assms(2,3) write_palette_length [where i=i and cs=cs and s=s]
    by (simp add: pixels_inv_def palette_inv_def)
next
  case (Set_subrect i sr)
  with assms have s': "s' = set_subrect i sr s" by simp
  show ?thesis unfolding s'
    using assms(2,3) by (simp add: set_subrect_def pixels_inv_def palette_inv_def Let_def)
qed

text \<open>
  When every allocation of \<open>set_size\<close> succeeds, any sequence of surface operations keeps
  both size invariants.
\<close>

lemma apply_ops_inv:
  "apply_ops cs s = Some s' \<Longrightarrow> pixels_inv s \<Longrightarrow> palette_inv s \<Longrightarrow> allocs_succeed cs \<Longrightarrow>
   pixels_inv s' \<and> palette_inv s'"
proof (induction cs arbitrary: s)
  case Nil
  then show ?case by simp
next
  case (Cons c cs)
  from Cons.prems(1) obtain s1 where s1: "apply_op c s = Some s1" "apply_ops cs s1 = Some s'"
    by (auto split: option.splits)
  from Cons.prems(4) have c: "case c of Set_size w h f a \<Rightarrow> a | _ \<Rightarrow> True" and cs: "allocs_succeed cs"
    by (simp_all add: allocs_succeed_def)
  from apply_op_inv [OF s1(1) Cons.prems(2,3) c] have "pixels_inv s1" "palette_inv s1" by simp_all
  from Cons.IH [OF s1(2) this cs] show ?case .
qed

text \<open>
  Claim C5. The claim says that after every surface operation the pixel buffer has
  \<open>width * height * bytes_per_pixel\<close> bytes. \<open>set_size\<close> assigns width, height, format and
  pitch before it resizes the buffer; when the resize throws \<open>std::bad_alloc\<close> the
  function returns \<open>false\<close> with the new dimensions and the old buffer. Here a fresh
  surface is asked for 32768 x 32768 indexed pixels (1 GiB, within the sanity limit) and
  the allocation fails: the surface reports 32768 x 32768 and holds no pixel.
\<close>

theorem set_size_failed_alloc_breaks_pixels_inv:
  "pixels_inv empty_surface \<and> palette_inv empty_surface \<and>
   fst (set_size 32768 32768 indexed8 False empty_surface) = False \<and>
   width (snd (set_size 32768 32768 indexed8 False empty_surface)) = 32768 \<and>
   height (snd (set_size 32768 32768 indexed8 False empty_surface)) = 32768 \<and>
   pixels (snd (set_size 32768 32768 indexed8 False empty_surface)) = [] \<and>
   \<not> pixels_inv (snd (set_size 32768 32768 indexed8 False empty_surface))"
  by (simp add: set_size_def empty_surface_def pixels_inv_def palette_inv_def Let_def
      SIZE_MAX_def MAX_BUFFER_SIZE_def)

section \<open>The interlace blend\<close>

lemma xor_plus_twice_and:
  "(x XOR y) + 2 * (x AND y) = x + y" for x y :: int
proof -
  have d: "(x AND y) AND (x XOR y) = 0"
    by (rule bit_eqI) (auto simp: bit_simps)
  have "(x AND y) + (x XOR y) = (x AND y) OR (x XOR y)"
    by (rule disjunctive_add_eq_or [OF d])
  also have "\<dots> = x OR y"
    by (rule bit_eqI) (auto simp: bit_simps)
  finally have "(x AND y) + (x XOR y) = x OR y" .
  with plus_and_or [of x y] show ?thesis by simp
qed

lemma and_plus_half_xor:
  "(x AND y) + drop_bit 1 (x XOR y) = (x + y) div 2" for x y :: int
  using xor_plus_twice_and [of x y] by (simp add: drop_bit_eq_div)

lemma split_sum_low:
  fixes x y :: int
  assumes "take_bit 8 x + take_bit 8 y < 256"
  shows "take_bit 8 (x + y) = take_bit 8 x + take_bit 8 y"
    and "drop_bit 8 (x + y) = drop_bit 8 x + drop_bit 8 y"
proof -
  have nn: "0 \<le> x mod 256 + y mod 256" by simp
  from assms have lt: "x mod 256 + y mod 256 < 256" by (simp add: take_bit_eq_mod)
  have "(x + y) mod 256 = (x mod 256 + y mod 256) mod 256" by (simp add: mod_add_eq)
  also have "\<dots> = x mod 256 + y mod 256" using nn lt by simp
  finally show "take_bit 8 (x + y) = take_bit 8 x + take_bit 8 y" by (simp add: take_bit_eq_mod)
  have "(x + y) div 256 = x div 256 + y div 256 + (x mod 256 + y mod 256) div 256"
    by (rule div_add1_eq)
  also have "\<dots> = x div 256 + y div 256" using nn lt by simp
  finally show "drop_bit 8 (x + y) = drop_bit 8 x + drop_bit 8 y" by (simp add: drop_bit_eq_div)
qed


lemma tb_mask:
  fixes z :: int
  shows "take_bit 8 (z AND 0x7f7f7f) = take_bit 7 z"
    "take_bit 8 (z AND 0x7f7f) = take_bit 7 z"
    "take_bit 8 (z AND 0x7f) = take_bit 7 z"
proof -
  have m: "take_bit 8 (0x7f7f7f::int) = mask 7" "take_bit 8 (0x7f7f::int) = mask 7"
    "take_bit 8 (0x7f::int) = mask 7"
    by (simp_all add: take_bit_eq_mod mask_eq_exp_minus_1)
  have k: "take_bit 8 z AND mask 7 = take_bit 7 z"
    by (simp flip: take_bit_eq_mask)
  show "take_bit 8 (z AND 0x7f7f7f) = take_bit 7 z"
    "take_bit 8 (z AND 0x7f7f) = take_bit 7 z"
    "take_bit 8 (z AND 0x7f) = take_bit 7 z"
    unfolding take_bit_and m k by simp_all
qed

lemma db_mask:
  fixes z :: int
  shows "drop_bit 8 (z AND 0x7f7f7f) = drop_bit 8 z AND 0x7f7f"
    "drop_bit 8 (z AND 0x7f7f) = drop_bit 8 z AND 0x7f"
proof -
  have m: "drop_bit 8 (0x7f7f7f::int) = 0x7f7f" "drop_bit 8 (0x7f7f::int) = 0x7f"
    by (simp_all add: drop_bit_eq_div)
  show "drop_bit 8 (z AND 0x7f7f7f) = drop_bit 8 z AND 0x7f7f"
    "drop_bit 8 (z AND 0x7f7f) = drop_bit 8 z AND 0x7f"
    unfolding drop_bit_and m by simp_all
qed

lemma half_take:
  fixes z :: int
  shows "take_bit 7 (drop_bit 1 z) = drop_bit 1 (take_bit 8 z)"
  by (simp add: drop_bit_take_bit)

lemma chan_sum:
  fixes A B :: int
  shows "take_bit 8 (A AND B) + take_bit 7 (drop_bit 1 (A XOR B)) = (take_bit 8 A + take_bit 8 B) div 2"
  unfolding half_take take_bit_and take_bit_xor by (rule and_plus_half_xor)

lemma chan_lt:
  fixes A B :: int
  shows "(take_bit 8 A + take_bit 8 B) div 2 < 256"
proof -
  have "take_bit 8 A < 2 ^ 8" "take_bit 8 B < 2 ^ 8" by (rule take_bit_int_less_exp)+
  then show ?thesis by simp
qed


lemma blend_step:
  fixes A B m m' :: int
  assumes tb: "\<And>z. take_bit 8 (z AND m) = take_bit 7 z"
    and db: "\<And>z. drop_bit 8 (z AND m) = drop_bit 8 z AND m'"
  shows "take_bit 8 ((A AND B) + (drop_bit 1 (A XOR B) AND m)) = (take_bit 8 A + take_bit 8 B) div 2"
    and "drop_bit 8 ((A AND B) + (drop_bit 1 (A XOR B) AND m)) =
         (drop_bit 8 A AND drop_bit 8 B) + (drop_bit 1 (drop_bit 8 A XOR drop_bit 8 B) AND m')"
proof -
  have s: "take_bit 8 (A AND B) + take_bit 8 (drop_bit 1 (A XOR B) AND m) =
      (take_bit 8 A + take_bit 8 B) div 2"
    unfolding tb by (rule chan_sum)
  then have lt: "take_bit 8 (A AND B) + take_bit 8 (drop_bit 1 (A XOR B) AND m) < 256"
    using chan_lt [of A B] by simp
  show "take_bit 8 ((A AND B) + (drop_bit 1 (A XOR B) AND m)) = (take_bit 8 A + take_bit 8 B) div 2"
    using split_sum_low(1) [OF lt] s by simp
  have "drop_bit 8 (drop_bit 1 (A XOR B)) = drop_bit 1 (drop_bit 8 A XOR drop_bit 8 B)"
    by (simp add: add.commute)
  then show "drop_bit 8 ((A AND B) + (drop_bit 1 (A XOR B) AND m)) =
         (drop_bit 8 A AND drop_bit 8 B) + (drop_bit 1 (drop_bit 8 A XOR drop_bit 8 B) AND m')"
    unfolding split_sum_low(2) [OF lt] db by simp
qed

lemma tb_mask_last:
  fixes z :: int
  shows "drop_bit 8 (z AND 0x7f) = drop_bit 8 z AND 0"
proof -
  have "drop_bit 8 (0x7f::int) = 0" by (simp add: drop_bit_eq_div)
  then show ?thesis unfolding drop_bit_and by simp
qed

lemma blend_int_channels:
  fixes A B :: int
  defines "S \<equiv> (A AND B) + (drop_bit 1 (A XOR B) AND 0x7f7f7f)"
  shows "take_bit 8 S = (take_bit 8 A + take_bit 8 B) div 2"
    and "take_bit 8 (drop_bit 8 S) = (take_bit 8 (drop_bit 8 A) + take_bit 8 (drop_bit 8 B)) div 2"
    and "take_bit 8 (drop_bit 16 S) = (take_bit 8 (drop_bit 16 A) + take_bit 8 (drop_bit 16 B)) div 2"
proof -
  show "take_bit 8 S = (take_bit 8 A + take_bit 8 B) div 2"
    unfolding S_def by (rule blend_step(1) [OF tb_mask(1) db_mask(1)])
  have d8: "drop_bit 8 S = (drop_bit 8 A AND drop_bit 8 B) + (drop_bit 1 (drop_bit 8 A XOR drop_bit 8 B) AND 0x7f7f)"
    unfolding S_def by (rule blend_step(2) [OF tb_mask(1) db_mask(1)])
  show "take_bit 8 (drop_bit 8 S) = (take_bit 8 (drop_bit 8 A) + take_bit 8 (drop_bit 8 B)) div 2"
    unfolding d8 by (rule blend_step(1) [OF tb_mask(2) db_mask(2)])
  have "drop_bit 16 S = drop_bit 8 (drop_bit 8 S)" by simp
  also have "\<dots> = (drop_bit 8 (drop_bit 8 A) AND drop_bit 8 (drop_bit 8 B)) +
      (drop_bit 1 (drop_bit 8 (drop_bit 8 A) XOR drop_bit 8 (drop_bit 8 B)) AND 0x7f)"
    unfolding d8 by (rule blend_step(2) [OF tb_mask(2) db_mask(2)])
  finally have d16: "drop_bit 16 S = (drop_bit 16 A AND drop_bit 16 B) +
      (drop_bit 1 (drop_bit 16 A XOR drop_bit 16 B) AND 0x7f)" by simp
  show "take_bit 8 (drop_bit 16 S) = (take_bit 8 (drop_bit 16 A) + take_bit 8 (drop_bit 16 B)) div 2"
    unfolding d16 by (rule blend_step(1) [OF tb_mask(3) tb_mask_last])
qed

lemma uint_drop_bit32:
  fixes w :: u32
  shows "uint (drop_bit k w) = drop_bit k (uint w)"
proof -
  have "uint w < 2 ^ 32" using uint_lt2p [of w] by simp
  then have "take_bit 32 (uint w) = uint w" by (intro take_bit_int_eq_self) simp_all
  then have "take_bit LENGTH(32) (uint w) = uint w" by simp
  then show ?thesis unfolding unsigned_drop_bit_eq by (rule arg_cong)
qed

lemma uint_blend_rgb:
  "uint (blend_rgb a b) = take_bit 32 ((uint a AND uint b) + (drop_bit 1 (uint a XOR uint b) AND 0x7f7f7f))"
proof -
  have n: "uint (0x7f7f7f :: u32) = 0x7f7f7f" by simp
  have "uint (blend_rgb a b) =
      (uint (a AND b) + uint (drop_bit 1 (a XOR b) AND 0x7f7f7f)) mod 2 ^ LENGTH(32)"
    unfolding blend_rgb_def RGB_BLEND_MASK_def by (rule uint_word_ariths(1))
  also have "uint (a AND b) = uint a AND uint b" by (rule unsigned_and_eq)
  also have "uint (drop_bit 1 (a XOR b) AND 0x7f7f7f) = drop_bit 1 (uint a XOR uint b) AND 0x7f7f7f"
    unfolding unsigned_and_eq uint_drop_bit32 unsigned_xor_eq n ..
  finally show ?thesis by (simp only: take_bit_eq_mod) simp
qed

lemma uint_channel:
  fixes w :: u32
  shows "uint (ucast (drop_bit k w AND 0xff) :: byte) = take_bit 8 (drop_bit k (uint w))"
proof -
  have n: "uint (0xff :: u32) = mask 8" by (simp add: mask_eq_exp_minus_1)
  have "uint (ucast (drop_bit k w AND 0xff) :: byte) =
      take_bit LENGTH(8) (uint (drop_bit k w AND 0xff))"
    by (rule unsigned_ucast_eq)
  also have "uint (drop_bit k w AND 0xff) = drop_bit k (uint w) AND mask 8"
    by (simp only: unsigned_and_eq uint_drop_bit32 n)
  also have "drop_bit k (uint w) AND mask 8 = take_bit 8 (drop_bit k (uint w))"
    by (rule take_bit_eq_mask [symmetric])
  finally show ?thesis by simp
qed

lemma uint_channel0:
  fixes w :: u32
  shows "uint (ucast (w AND 0xff) :: byte) = take_bit 8 (uint w)"
  using uint_channel [of 0 w] by simp

lemma take_drop_take32:
  fixes S :: int
  shows "take_bit 8 (take_bit 32 S) = take_bit 8 S"
    "take_bit 8 (drop_bit 8 (take_bit 32 S)) = take_bit 8 (drop_bit 8 S)"
    "take_bit 8 (drop_bit 16 (take_bit 32 S)) = take_bit 8 (drop_bit 16 S)"
  by (simp_all add: drop_bit_take_bit)

lemma blend_rgb_channels:
  "uint (ucast (blend_rgb a b AND 0xff) :: byte) =
     (uint (ucast (a AND 0xff) :: byte) + uint (ucast (b AND 0xff) :: byte)) div 2"
  "uint (ucast (drop_bit 8 (blend_rgb a b) AND 0xff) :: byte) =
     (uint (ucast (drop_bit 8 a AND 0xff) :: byte) + uint (ucast (drop_bit 8 b AND 0xff) :: byte)) div 2"
  "uint (ucast (drop_bit 16 (blend_rgb a b) AND 0xff) :: byte) =
     (uint (ucast (drop_bit 16 a AND 0xff) :: byte) + uint (ucast (drop_bit 16 b AND 0xff) :: byte)) div 2"
  unfolding uint_channel0 uint_drop_bit32 uint_blend_rgb take_drop_take32
  by (rule blend_int_channels)+

text \<open>
  Claim C7. \<open>blend_rgb a b\<close> is \<open>(a & b) + ((a ^ b) >> 1 & 0x7f7f7f)\<close>, and each of the
  three bytes that \<open>write_rgb_pixel\<close> takes from it (red, green, blue) is the floor of
  the average of the corresponding bytes of \<open>a\<close> and \<open>b\<close>: no carry passes from one
  channel into the next. This holds for all 32-bit values, so for all 24-bit colours.
\<close>

theorem blend_rgb_channel_average:
  "blend_rgb a b = (a AND b) + (drop_bit 1 (a XOR b) AND 0x7f7f7f) \<and>
   map uint (rgb_bytes (blend_rgb a b)) =
     map (\<lambda>(x, y). (uint x + uint y) div 2) (zip (rgb_bytes a) (rgb_bytes b))"
proof
  show "blend_rgb a b = (a AND b) + (drop_bit 1 (a XOR b) AND 0x7f7f7f)"
    by (simp add: blend_rgb_def RGB_BLEND_MASK_def)
  show "map uint (rgb_bytes (blend_rgb a b)) =
     map (\<lambda>(x, y). (uint x + uint y) div 2) (zip (rgb_bytes a) (rgb_bytes b))"
    unfolding rgb_bytes_def
    by (simp only: list.map zip_Cons_Cons zip_Nil prod.case blend_rgb_channels)
qed

section \<open>The registry\<close>

lemma find_decoder_first:
  "i < length ds \<Longrightarrow> dec_sniff (ds ! i) data \<Longrightarrow> (\<forall>j<i. \<not> dec_sniff (ds ! j) data) \<Longrightarrow>
   find_decoder ds data = Some (ds ! i)"
proof (induction ds arbitrary: i)
  case Nil
  then show ?case by simp
next
  case (Cons d ds)
  show ?case
  proof (cases i)
    case 0
    with Cons.prems show ?thesis by simp
  next
    case (Suc k)
    with Cons.prems have "\<not> dec_sniff d data" by auto
    moreover from Suc Cons.prems have "find_decoder ds data = Some (ds ! k)"
      by (intro Cons.IH) auto
    ultimately show ?thesis using Suc by simp
  qed
qed

lemma find_decoder_none:
  "(\<forall>d\<in>set ds. \<not> dec_sniff d data) \<Longrightarrow> find_decoder ds data = None"
  by (induction ds) auto

text \<open>
  Claim C4. Auto-detecting \<open>decode\<close> gives the input to the first decoder, in
  registration order, whose sniff predicate accepts it, whatever later decoders would
  say. When no sniff predicate accepts the input the result is the failure
  \<open>invalid_format\<close> and the surface is returned as it was: the result is a fixed value
  in which no decode function of the registry occurs.
\<close>

theorem decode_dispatches_to_first_match:
  "(i < length registry \<and> dec_sniff (registry ! i) data \<and>
    (\<forall>j<i. \<not> dec_sniff (registry ! j) data) \<longrightarrow>
      find_decoder registry data = Some (registry ! i) \<and>
      decode registry data surf options = dec_decode (registry ! i) data surf options) \<and>
   ((\<forall>d\<in>set registry. \<not> dec_sniff d data) \<longrightarrow>
      find_decoder registry data = None \<and>
      decode registry data surf options =
        Some (failure invalid_format ''Unknown image format'', surf))"
  using find_decoder_first [of i registry data] find_decoder_none [of registry data]
  by (simp add: decode_def)

lemma sniff_both:
  "koala_sniff ([0x00, 0x60] @ DRAZLACE_SIGNATURE @ replicate 84 0 @ [0xFE])"
  "drazlace_sniff ([0x00, 0x60] @ DRAZLACE_SIGNATURE @ replicate 84 0 @ [0xFE])"
  by (simp_all add: koala_sniff_def is_uncompressed_koala_def is_gg_koala_def drazlace_sniff_def
      has_drazlace_signature_def DRAZLACE_SIGNATURE_def DRAZLACE_SIGNATURE_LEN_def
      KOALA_SIZE_WITHOUT_ADDR_def KOALA_SIZE_WITH_ADDR_def KOALA_SIZE_OCP_def GG_RLE_ESCAPE_def
      DRAZLACE_UNPACKED_SIZE_def)

lemma sniff_second:
  "\<not> koala_sniff ([0x00, 0x60] @ DRAZLACE_SIGNATURE)"
  "drazlace_sniff ([0x00, 0x60] @ DRAZLACE_SIGNATURE)"
  by (simp_all add: koala_sniff_def is_uncompressed_koala_def is_gg_koala_def drazlace_sniff_def
      has_drazlace_signature_def DRAZLACE_SIGNATURE_def DRAZLACE_SIGNATURE_LEN_def
      KOALA_SIZE_WITHOUT_ADDR_def KOALA_SIZE_WITH_ADDR_def KOALA_SIZE_OCP_def GG_RLE_ESCAPE_def
      DRAZLACE_UNPACKED_SIZE_def)

lemma sniff_none:
  "\<not> koala_sniff []" "\<not> drazlace_sniff []"
  by (simp_all add: koala_sniff_def is_uncompressed_koala_def is_gg_koala_def drazlace_sniff_def
      has_drazlace_signature_def DRAZLACE_SIGNATURE_def DRAZLACE_SIGNATURE_LEN_def
      KOALA_SIZE_WITHOUT_ADDR_def KOALA_SIZE_WITH_ADDR_def KOALA_SIZE_OCP_def GG_RLE_ESCAPE_def
      DRAZLACE_UNPACKED_SIZE_def)

text \<open>
  Witness for C4 on the registry of the Koala and DrazLace decoders, in the order of the
  built-in registry. The first input carries the DrazLace signature and also passes the
  Koala heuristics (load address \<open>0x6000\<close>, an escape byte): the earlier Koala entry
  gets it. The second input is accepted by DrazLace only, the empty input by none.
\<close>

theorem decode_dispatches_to_first_match_witness:
  "decode [koala_decoder_impl True, drazlace_decoder_impl True]
     ([0x00, 0x60] @ DRAZLACE_SIGNATURE @ replicate 84 0 @ [0xFE]) empty_surface default_options =
   koala_decode ([0x00, 0x60] @ DRAZLACE_SIGNATURE @ replicate 84 0 @ [0xFE]) empty_surface
     default_options True \<and>
   decode [koala_decoder_impl True, drazlace_decoder_impl True]
     ([0x00, 0x60] @ DRAZLACE_SIGNATURE) empty_surface default_options =
   drazlace_decode ([0x00, 0x60] @ DRAZLACE_SIGNATURE) empty_surface default_options True \<and>
   decode [koala_decoder_impl True, drazlace_decoder_impl True] [] empty_surface default_options =
   Some (failure invalid_format ''Unknown image format'', empty_surface)"
  using
    decode_dispatches_to_first_match [of 0 "[koala_decoder_impl True, drazlace_decoder_impl True]"
      "[0x00, 0x60] @ DRAZLACE_SIGNATURE @ replicate 84 0 @ [0xFE]" empty_surface default_options]
    decode_dispatches_to_first_match [of 1 "[koala_decoder_impl True, drazlace_decoder_impl True]"
      "[0x00, 0x60] @ DRAZLACE_SIGNATURE" empty_surface default_options]
    decode_dispatches_to_first_match [of 0 "[koala_decoder_impl True, drazlace_decoder_impl True]"
      "[]" empty_surface default_options]
    sniff_both sniff_second sniff_none
  by (simp add: koala_decoder_impl_def drazlace_decoder_impl_def)

section \<open>The run-length decompressors\<close>

lemma rd_Some [simp]: "i < length xs \<Longrightarrow> rd xs i = Some (xs ! i)"
  by (simp add: rd_def)

lemma rd_None [simp]: "length xs \<le> i \<Longrightarrow> rd xs i = None"
  by (simp add: rd_def)

lemma wr_Some [simp]: "i < length xs \<Longrightarrow> wr xs i v = Some (xs[i := v])"
  by (simp add: wr_def)

declare gg_loop.simps [simp del] drp_loop.simps [simp del]

lemma gg_loop_truncated_escape:
  assumes "length out < n" "pos < length data" "data ! pos = GG_RLE_ESCAPE" "length data \<le> pos + 2"
  shows "gg_loop data n pos out = Some (False, out)"
  using assms by (subst gg_loop.simps) simp

lemma gg_loop_total:
  "length out \<le> n \<Longrightarrow>
   \<exists>res out'. gg_loop data n pos out = Some (res, out') \<and> length out' \<le> n \<and>
     (res \<longrightarrow> length out' = n)"
proof (induction data n pos out rule: gg_loop.induct)
  case (1 data n pos out)
  show ?case
  proof (cases "length out < n \<and> pos < length data")
    case False
    then show ?thesis using "1.prems" by (subst gg_loop.simps) auto
  next
    case True
    then have rd: "rd data pos = Some (data ! pos)" by simp
    show ?thesis
    proof (cases "data ! pos = GG_RLE_ESCAPE")
      case esc: True
      show ?thesis
      proof (cases "pos + 1 + 1 \<ge> length data")
        case True
        with \<open>length out < n \<and> pos < length data\<close> esc "1.prems" show ?thesis
          by (subst gg_loop.simps) auto
      next
        case False
        then have r1: "rd data (pos + 1) = Some (data ! (pos + 1))"
          and r2: "rd data (pos + 2) = Some (data ! (pos + 2))" by simp_all
        define to_write where "to_write = min (unat (data ! (pos + 2))) (n - length out)"
        have len: "length (out @ replicate to_write (data ! (pos + 1))) \<le> n"
          using "1.prems" by (simp add: to_write_def)
        from "1.IH"(1) [OF True rd esc False r1 r2 refl, of to_write, OF _ len]
        have "\<exists>res out'. gg_loop data n (pos + 3) (out @ replicate to_write (data ! (pos + 1))) =
            Some (res, out') \<and> length out' \<le> n \<and> (res \<longrightarrow> length out' = n)"
          by (simp add: to_write_def)
        then show ?thesis
          using True esc False r1 r2
          by (subst gg_loop.simps) (simp add: to_write_def Let_def)
      qed
    next
      case lit: False
      have len: "length (out @ [data ! pos]) \<le> n" using True by simp
      from "1.IH"(2) [OF True rd lit len]
      show ?thesis using True lit by (subst gg_loop.simps) simp
    qed
  qed
qed


lemma fill_run_total:
  "out_pos + k \<le> length out \<Longrightarrow>
   \<exists>out'. fill_run out out_pos k v = Some out' \<and> length out' = length out"
proof (induction k arbitrary: out out_pos)
  case 0
  then show ?case by simp
next
  case (Suc k)
  then have "out_pos < length out" by simp
  moreover from Suc.prems have "Suc out_pos + k \<le> length (out[out_pos := v])" by simp
  from Suc.IH [OF this] obtain out' where
    "fill_run (out[out_pos := v]) (Suc out_pos) k v = Some out'" "length out' = length out"
    by auto
  ultimately show ?case by simp
qed

lemma drp_loop_truncated_escape:
  assumes "out_pos < n" "pos < length data" "data ! pos = escape" "length data \<le> pos + 2"
  shows "drp_loop data escape n pos out_pos out = Some (False, out)"
  using assms by (subst drp_loop.simps) simp

lemma drp_loop_total:
  "length out = n \<Longrightarrow> out_pos \<le> n \<Longrightarrow>
   \<exists>res out'. drp_loop data escape n pos out_pos out = Some (res, out') \<and> length out' = n"
proof (induction data escape n pos out_pos out rule: drp_loop.induct)
  case (1 data escape n pos out_pos out)
  show ?case
  proof (cases "out_pos < n \<and> pos < length data")
    case False
    then show ?thesis using "1.prems" by (subst drp_loop.simps) auto
  next
    case True
    then have rd: "rd data pos = Some (data ! pos)" by simp
    show ?thesis
    proof (cases "data ! pos = escape")
      case esc: True
      show ?thesis
      proof (cases "pos + 2 \<ge> length data")
        case True
        with \<open>out_pos < n \<and> pos < length data\<close> esc "1.prems" show ?thesis
          by (subst drp_loop.simps) auto
      next
        case False
        then have n1: "\<not> pos + 1 \<ge> length data" by simp
        from False have r1: "rd data (pos + 1) = Some (data ! (pos + 1))"
          and r2: "rd data (pos + 2) = Some (data ! (pos + 2))" by simp_all
        define to_write where "to_write = min (unat (data ! (pos + 1))) (n - out_pos)"
        have "out_pos + to_write \<le> length out" using "1.prems" by (simp add: to_write_def)
        from fill_run_total [OF this] obtain out1 where
          f: "fill_run out out_pos to_write (data ! (pos + 2)) = Some out1" and l1: "length out1 = n"
          using "1.prems" by auto
        have op: "out_pos + to_write \<le> n" using "1.prems" by (simp add: to_write_def)
        from "1.IH"(1) [OF True rd esc n1 r1 False r2 refl, of to_write out1] f l1 op
        have "\<exists>res out'. drp_loop data escape n (pos + 3) (out_pos + to_write) out1 =
            Some (res, out') \<and> length out' = n"
          by (simp add: to_write_def)
        then show ?thesis
          using True esc False n1 r1 r2 f
          by (subst drp_loop.simps) (simp add: to_write_def Let_def)
      qed
    next
      case lit: False
      from True "1.prems" have w: "wr out out_pos (data ! pos) = Some (out[out_pos := data ! pos])"
        by simp
      from "1.IH"(2) [OF True rd lit w] True "1.prems"
      show ?thesis using lit by (subst drp_loop.simps) simp
    qed
  qed
qed

lemma decompress_gg_total:
  "\<exists>res out. decompress_gg data off [] n = Some (res, out) \<and> length out \<le> n \<and>
     (res \<longrightarrow> length out = n)"
  using gg_loop_total [of "[]" n data off] by (auto simp: decompress_gg_def)

lemma decompress_drp_unfold:
  assumes "2 \<le> n" "\<not> length data < 17" "\<not> n > length data * MAX_COMPRESSION_RATIO"
  shows "decompress_drp data out n =
     drp_loop data (data ! 15) n 16 2 ((replicate n 0)[0 := data ! 0, 1 := data ! 1])"
proof -
  from assms(2) have r: "rd data 15 = Some (data ! 15)" "rd data 0 = Some (data ! 0)"
    "rd data 1 = Some (data ! 1)" by (auto simp: rd_def)
  from assms(1) have w: "wr (replicate n (0::byte)) 0 (data ! 0) = Some ((replicate n 0)[0 := data ! 0])"
    "wr ((replicate n (0::byte))[0 := data ! 0]) 1 (data ! 1) =
       Some ((replicate n 0)[0 := data ! 0, 1 := data ! 1])"
    by simp_all
  show ?thesis using assms by (simp add: decompress_drp_def Let_def r)
qed

lemma decompress_drp_total:
  assumes "2 \<le> n"
  shows "\<exists>res out. decompress_drp data [] n = Some (res, out) \<and> length out \<le> n \<and>
     (res \<longrightarrow> length out = n)"
proof (cases "length data < 17 \<or> n > length data * MAX_COMPRESSION_RATIO")
  case True
  then show ?thesis by (auto simp: decompress_drp_def)
next
  case False
  define out2 where "out2 = (replicate n (0::byte))[0 := data ! 0, 1 := data ! 1]"
  have l: "length out2 = n" by (simp add: out2_def)
  from drp_loop_total [OF l, of 2 data "data ! 15" 16] assms obtain res out' where
    "drp_loop data (data ! 15) n 16 2 out2 = Some (res, out')" "length out' = n" by auto
  moreover from False assms have "decompress_drp data [] n = drp_loop data (data ! 15) n 16 2 out2"
    unfolding out2_def by (intro decompress_drp_unfold) simp_all
  ultimately show ?thesis by simp
qed

lemma decompress_guard:
  "n > length data * 1000 \<Longrightarrow> decompress_gg data off out n = Some (False, out)"
  "n > length data * 1000 \<Longrightarrow> decompress_drp data out n = Some (False, out)"
  by (auto simp: decompress_gg_def decompress_drp_def MAX_COMPRESSION_RATIO_def)

lemma koala_decode_decompress_failure:
  assumes "is_gg_koala data" "decompress_gg data 2 [] KOALA_SIZE_WITHOUT_ADDR = Some (False, out)"
  shows "koala_decode data surf options resize_ok =
     Some (failure truncated_data ''Failed to decompress GG Koala data'', surf)"
proof -
  from assms(1) have "data \<noteq> []" by (auto simp: is_gg_koala_def)
  with assms show ?thesis by (simp add: koala_decode_def)
qed

lemma drazlace_decode_decompress_failure:
  assumes "has_drazlace_signature data" "decompress_drp data [] DRAZLACE_UNPACKED_SIZE = Some (False, out)"
  shows "drazlace_decode data surf options resize_ok =
     Some (failure truncated_data ''Failed to decompress DrazLace data'', surf)"
proof -
  from assms(1) have "data \<noteq> []" by (auto simp: has_drazlace_signature_def)
  with assms show ?thesis by (simp add: drazlace_decode_def)
qed


text \<open>
  Claim C6. Both run-length decompressors, GG (Koala) and DRP (DrazLace):
  \<^item> in any state of the loop, an escape byte that is read with fewer than two bytes
    after it makes the function return \<open>false\<close>;
  \<^item> a requested size above 1000 times the input size is rejected;
  \<^item> on every input the function returns, and the output it leaves has at most the
    requested size (exactly that size when it returns \<open>true\<close>); DRP writes the two
    address bytes first, so its requested size is at least 2 (it is 18242 in the decoder);
  \<^item> when the decompressor returns \<open>false\<close>, the decoder returns \<open>truncated_data\<close>.
\<close>

theorem rle_decompressors_guarded:
  "(length out < n \<and> pos < length data \<and> data ! pos = GG_RLE_ESCAPE \<and> length data \<le> pos + 2 \<longrightarrow>
      gg_loop data n pos out = Some (False, out)) \<and>
   (out_pos < n \<and> pos < length data \<and> data ! pos = escape \<and> length data \<le> pos + 2 \<longrightarrow>
      drp_loop data escape n pos out_pos out = Some (False, out)) \<and>
   (n > length data * 1000 \<longrightarrow>
      decompress_gg data off out n = Some (False, out) \<and>
      decompress_drp data out n = Some (False, out)) \<and>
   (\<exists>res out'. decompress_gg data off [] n = Some (res, out') \<and> length out' \<le> n \<and>
      (res \<longrightarrow> length out' = n)) \<and>
   (2 \<le> n \<longrightarrow>
      (\<exists>res out'. decompress_drp data [] n = Some (res, out') \<and> length out' \<le> n \<and>
         (res \<longrightarrow> length out' = n))) \<and>
   (is_gg_koala data \<and> decompress_gg data 2 [] KOALA_SIZE_WITHOUT_ADDR = Some (False, out) \<longrightarrow>
      koala_decode data surf options resize_ok =
        Some (failure truncated_data ''Failed to decompress GG Koala data'', surf)) \<and>
   (has_drazlace_signature data \<and>
    decompress_drp data [] DRAZLACE_UNPACKED_SIZE = Some (False, out) \<longrightarrow>
      drazlace_decode data surf options resize_ok =
        Some (failure truncated_data ''Failed to decompress DrazLace data'', surf))"
proof (intro conjI impI)
  assume "length out < n \<and> pos < length data \<and> data ! pos = GG_RLE_ESCAPE \<and> length data \<le> pos + 2"
  then show "gg_loop data n pos out = Some (False, out)"
    by (intro gg_loop_truncated_escape) simp_all
next
  assume "out_pos < n \<and> pos < length data \<and> data ! pos = escape \<and> length data \<le> pos + 2"
  then show "drp_loop data escape n pos out_pos out = Some (False, out)"
    by (intro drp_loop_truncated_escape) simp_all
next
  assume "n > length data * 1000"
  then show "decompress_gg data off out n = Some (False, out)"
    by (rule decompress_guard)
next
  assume "n > length data * 1000"
  then show "decompress_drp data out n = Some (False, out)"
    by (rule decompress_guard)
next
  show "\<exists>res out'. decompress_gg data off [] n = Some (res, out') \<and> length out' \<le> n \<and>
      (res \<longrightarrow> length out' = n)"
    by (rule decompress_gg_total)
next
  assume "2 \<le> n"
  then show "\<exists>res out'. decompress_drp data [] n = Some (res, out') \<and> length out' \<le> n \<and>
      (res \<longrightarrow> length out' = n)"
    by (rule decompress_drp_total)
next
  assume "is_gg_koala data \<and> decompress_gg data 2 [] KOALA_SIZE_WITHOUT_ADDR = Some (False, out)"
  then show "koala_decode data surf options resize_ok =
      Some (failure truncated_data ''Failed to decompress GG Koala data'', surf)"
    by (intro koala_decode_decompress_failure) simp_all
next
  assume "has_drazlace_signature data \<and>
    decompress_drp data [] DRAZLACE_UNPACKED_SIZE = Some (False, out)"
  then show "drazlace_decode data surf options resize_ok =
      Some (failure truncated_data ''Failed to decompress DrazLace data'', surf)"
    by (intro drazlace_decode_decompress_failure) simp_all
qed

lemma gg_loop_literals:
  "(\<forall>i<k. data ! (pos + i) \<noteq> GG_RLE_ESCAPE) \<Longrightarrow> pos + k \<le> length data \<Longrightarrow>
   length out + k \<le> n \<Longrightarrow>
   gg_loop data n pos out = gg_loop data n (pos + k) (out @ take k (drop pos data))"
proof (induction k arbitrary: pos out)
  case 0
  then show ?case by simp
next
  case (Suc k)
  from Suc.prems have lit: "data ! pos \<noteq> GG_RLE_ESCAPE" and p: "pos < length data"
    and o: "length out < n" by (auto dest: spec [of _ 0])
  from Suc.prems have "\<forall>i<k. data ! (Suc pos + i) \<noteq> GG_RLE_ESCAPE" by auto
  from Suc.IH [OF this, of "out @ [data ! pos]"] Suc.prems
  have "gg_loop data n (Suc pos) (out @ [data ! pos]) =
      gg_loop data n (Suc pos + k) ((out @ [data ! pos]) @ take k (drop (Suc pos) data))"
    by simp
  moreover have "take (Suc k) (drop pos data) = data ! pos # take k (drop (Suc pos) data)"
    using p by (simp add: Cons_nth_drop_Suc [symmetric])
  ultimately show ?case
    using lit p o by (subst gg_loop.simps) simp
qed

lemma ev1: "decompress_gg ([0x00, 0x60] @ replicate 97 0 @ [0xFE]) 2 [] KOALA_SIZE_WITHOUT_ADDR =
    Some (False, replicate 97 0)"
proof -
  define data :: "byte list" where "data = [0x00, 0x60] @ replicate 97 0 @ [0xFE]"
  have len: "length data = 100" by (simp add: data_def)
  have lits: "\<forall>i<97. data ! (2 + i) \<noteq> GG_RLE_ESCAPE"
    by (simp add: data_def nth_append GG_RLE_ESCAPE_def)
  have t: "take 97 (drop 2 data) = replicate 97 0" by (simp add: data_def)
  have "gg_loop data 10001 2 [] = gg_loop data 10001 (2 + 97) ([] @ take 97 (drop 2 data))"
    by (rule gg_loop_literals [OF lits]) (simp_all add: len)
  also have "\<dots> = gg_loop data 10001 99 (replicate 97 0)" by (simp add: t)
  also have "\<dots> = Some (False, replicate 97 0)"
    by (rule gg_loop_truncated_escape) (simp_all add: len data_def nth_append GG_RLE_ESCAPE_def)
  finally have "decompress_gg data 2 [] KOALA_SIZE_WITHOUT_ADDR = Some (False, replicate 97 0)"
    by (simp add: decompress_gg_def KOALA_SIZE_WITHOUT_ADDR_def MAX_COMPRESSION_RATIO_def len)
  then show ?thesis by (simp only: data_def)
qed

lemma ev2: "is_gg_koala ([0x00, 0x60] @ replicate 97 0 @ [0xFE])"
  by (simp add: is_gg_koala_def KOALA_SIZE_WITHOUT_ADDR_def GG_RLE_ESCAPE_def)

lemma ev3: "has_drazlace_signature ([0x00, 0x60] @ DRAZLACE_SIGNATURE)"
  "decompress_drp ([0x00, 0x60] @ DRAZLACE_SIGNATURE) [] DRAZLACE_UNPACKED_SIZE = Some (False, [])"
  by (simp_all add: has_drazlace_signature_def DRAZLACE_SIGNATURE_def DRAZLACE_SIGNATURE_LEN_def
      decompress_drp_def)

text \<open>Witness for C6: each premise of the theorem at a concrete input.\<close>

theorem rle_decompressors_guarded_witness:
  "gg_loop [0xFE, 7] 5 0 [] = Some (False, []) \<and>
   drp_loop [0xAA, 3] 0xAA 5 0 2 [1, 2, 0, 0, 0] = Some (False, [1, 2, 0, 0, 0]) \<and>
   decompress_gg [1] 0 [] 1001 = Some (False, []) \<and>
   decompress_drp [1] [] 1001 = Some (False, []) \<and>
   (\<exists>res out'. decompress_drp [] [] 2 = Some (res, out') \<and> length out' \<le> 2) \<and>
   koala_decode ([0x00, 0x60] @ replicate 97 0 @ [0xFE]) empty_surface default_options True =
     Some (failure truncated_data ''Failed to decompress GG Koala data'', empty_surface) \<and>
   drazlace_decode ([0x00, 0x60] @ DRAZLACE_SIGNATURE) empty_surface default_options True =
     Some (failure truncated_data ''Failed to decompress DrazLace data'', empty_surface)"
proof -
  have a: "gg_loop [0xFE, 7] 5 0 [] = Some (False, [])"
    using rle_decompressors_guarded [of "[]" 5 0 "[0xFE, 7]"]
    by (simp add: GG_RLE_ESCAPE_def)
  have b: "drp_loop [0xAA, 3] 0xAA 5 0 2 [1, 2, 0, 0, 0] = Some (False, [1, 2, 0, 0, 0])"
    using rle_decompressors_guarded [of "[1, 2, 0, 0, 0]" 5 0 "[0xAA, 3]" 2 "0xAA"]
    by simp
  have c: "decompress_gg [1] 0 [] 1001 = Some (False, []) \<and>
      decompress_drp [1] [] 1001 = Some (False, [])"
    using rle_decompressors_guarded [of "[]" 1001 0 "[1]" 0 0 0]
    by simp
  have d: "\<exists>res out'. decompress_drp [] [] 2 = Some (res, out') \<and> length out' \<le> 2"
    using rle_decompressors_guarded [of "[]" 2 0 "[]" 0 0 0]
    by auto
  have e: "koala_decode ([0x00, 0x60] @ replicate 97 0 @ [0xFE]) empty_surface default_options True =
     Some (failure truncated_data ''Failed to decompress GG Koala data'', empty_surface)"
    using rle_decompressors_guarded [of "replicate 97 0" 0 0 "[0x00, 0x60] @ replicate 97 0 @ [0xFE]"
        0 0 0 empty_surface default_options True] ev1 ev2
    by simp
  have f: "drazlace_decode ([0x00, 0x60] @ DRAZLACE_SIGNATURE) empty_surface default_options True =
     Some (failure truncated_data ''Failed to decompress DrazLace data'', empty_surface)"
    using rle_decompressors_guarded [of "[]" 0 0 "[0x00, 0x60] @ DRAZLACE_SIGNATURE"
        0 0 0 empty_surface default_options True] ev3
    by simp
  from a b c d e f show ?thesis by blast
qed

section \<open>Koala: compressed and uncompressed files\<close>

lemma rd_drop: "rd (drop k xs) i = rd xs (k + i)"
  by (auto simp: rd_def)

lemma multicolor_index_drop:
  "multicolor_index (drop k src) b s c bg x y = multicolor_index src (k + b) (k + s) (k + c) bg x y"
  by (simp add: multicolor_index_def Let_def rd_drop add.assoc cong: option.case_cong if_cong)

lemma decode_multicolor_drop:
  "decode_multicolor (drop k src) b s c bg surf = decode_multicolor src (k + b) (k + s) (k + c) bg surf"
  by (simp add: decode_multicolor_def multicolor_index_drop)

text \<open>A loop whose body never fails and keeps an invariant.\<close>

lemma for_loop_total:
  assumes "\<And>i s. i \<in> set is \<Longrightarrow> P s \<Longrightarrow> \<exists>s'. body i s = Some s' \<and> P s'" "P s"
  shows "\<exists>s'. for_loop is body s = Some s' \<and> P s'"
  using assms
proof (induction "is" arbitrary: s)
  case Nil
  then show ?case by simp
next
  case (Cons i "is")
  from Cons.prems(1) [of i s] Cons.prems(2) obtain s1 where s1: "body i s = Some s1" "P s1" by auto
  from Cons.IH [of s1] Cons.prems(1) s1(2) obtain s' where "for_loop is body s1 = Some s'" "P s'"
    by auto
  with s1 show ?case by simp
qed

lemma write_pixels_total:
  assumes "c \<le> int (length src)"
  shows "\<exists>s'. write_pixels x y c (Some src) s = Some s'"
proof -
  from assms have "min (nat c) (pitch s - nat x) \<le> length src" by simp
  then show ?thesis by (simp add: write_pixels_def Let_def)
qed

lemma write_rgb_pixel_total: "\<exists>s'. write_rgb_pixel s x y rgb = Some s'"
  unfolding write_rgb_pixel_def
  by (rule write_pixels_total) (simp add: rgb_bytes_def RGB_BYTES_def)

lemma write_rgb_pixel_shape:
  "write_rgb_pixel s x y rgb = Some s' \<Longrightarrow> same_shape s0 s \<Longrightarrow> same_shape s0 s'"
proof -
  assume h: "write_rgb_pixel s x y rgb = Some s'" and sh: "same_shape s0 s"
  note i = write_pixels_inv [OF h [unfolded write_rgb_pixel_def]]
  from sh show ?thesis by (simp add: same_shape_def i)
qed

lemma nibble_lt: "unat (v AND (0x0f :: byte)) < 16"
proof -
  have "v AND 0x0f \<le> 0x0f" by (rule word_and_le1)
  then have "unat (v AND 0x0f) \<le> unat (0x0f :: byte)" by (simp only: word_le_nat_alt)
  then show ?thesis by simp
qed

lemma cell_offset_lt:
  fixes x y :: nat
  assumes "x < 320" "y < 200"
  shows "(y div 8 * 40 + x div 8) * 8 + y mod 8 < 8000" "y div 8 * 40 + x div 8 < 1000"
proof -
  from assms have "y div 8 \<le> 24" "x div 8 \<le> 39" by simp_all
  then have "y div 8 * 40 + x div 8 \<le> 999" by simp
  moreover have "y mod 8 < 8" by simp
  ultimately show "(y div 8 * 40 + x div 8) * 8 + y mod 8 < 8000" "y div 8 * 40 + x div 8 < 1000"
    by simp_all
qed

lemma multicolor_index_total:
  assumes "x < 320" "y < 200" "b + 8000 \<le> length src" "s + 1000 \<le> length src"
    "c + 1000 \<le> length src"
  shows "\<exists>ci. multicolor_index src b s c bg x y = Some ci \<and> unat ci < 16"
proof -
  define co where "co = y div 8 * 40 + x div 8"
  from cell_offset_lt [OF assms(1,2)] have "co * 8 + y mod 8 < 8000" "co < 1000"
    by (simp_all add: co_def)
  with assms have r: "rd src (b + (co * 8 + y mod 8)) = Some (src ! (b + (co * 8 + y mod 8)))"
    "rd src (s + co) = Some (src ! (s + co))" "rd src (c + co) = Some (src ! (c + co))"
    by simp_all
  have n: "unat (bg AND 0x0f) < 16" "unat (drop_bit 4 (src ! (s + co)) AND 0x0f) < 16"
    "unat (src ! (s + co) AND 0x0f) < 16" "unat (src ! (c + co) AND 0x0f) < 16"
    by (rule nibble_lt)+
  show ?thesis
    unfolding multicolor_index_def Let_def co_def [symmetric] r
    using n by simp
qed


lemma same_shape_refl [simp]: "same_shape s s"
  by (simp add: same_shape_def)

lemma multicolor_pixel_total:
  assumes "x < 320" "y < 200" "b + 8000 \<le> length src" "s + 1000 \<le> length src"
    "c + 1000 \<le> length src" "same_shape s0 t"
  shows "\<exists>t'. (case multicolor_index src b s c bg x y of None \<Rightarrow> None
           | Some color_index \<Rightarrow>
               (case rd PALETTE (unat color_index) of None \<Rightarrow> None
                | Some rgb \<Rightarrow> write_rgb_pixel t (int x) (int y) rgb)) = Some t' \<and>
         same_shape s0 t'"
proof -
  from multicolor_index_total [OF assms(1-5)] obtain ci where
    ci: "multicolor_index src b s c bg x y = Some ci" "unat ci < 16" by blast
  then have p: "rd PALETTE (unat ci) = Some (PALETTE ! unat ci)" by (simp add: PALETTE_def)
  from write_rgb_pixel_total obtain t' where
    t': "write_rgb_pixel t (int x) (int y) (PALETTE ! unat ci) = Some t'" by blast
  from write_rgb_pixel_shape [OF t' assms(6)] have "same_shape s0 t'" .
  with ci p t' show ?thesis by simp
qed

lemma decode_multicolor_total:
  assumes "b + 8000 \<le> length src" "s + 1000 \<le> length src" "c + 1000 \<le> length src"
  shows "\<exists>t. decode_multicolor src b s c bg surf = Some t \<and> same_shape surf t"
  unfolding decode_multicolor_def
proof (rule for_loop_total)
  show "same_shape surf surf" by simp
next
  fix y t
  assume y: "y \<in> set [0..<nat MULTICOLOR_HEIGHT]" and t: "same_shape surf t"
  show "\<exists>t'. for_loop [0..<nat MULTICOLOR_WIDTH]
          (\<lambda>x s'. case multicolor_index src b s c bg x y of None \<Rightarrow> None
             | Some color_index \<Rightarrow>
                 (case rd PALETTE (unat color_index) of None \<Rightarrow> None
                  | Some rgb \<Rightarrow> write_rgb_pixel s' (int x) (int y) rgb)) t = Some t' \<and>
        same_shape surf t'"
  proof (rule for_loop_total)
    show "same_shape surf t" by (rule t)
  next
    fix x u
    assume x: "x \<in> set [0..<nat MULTICOLOR_WIDTH]" and u: "same_shape surf u"
    from x y have "x < 320" "y < 200" by (simp_all add: MULTICOLOR_WIDTH_def MULTICOLOR_HEIGHT_def)
    from multicolor_pixel_total [OF this assms u]
    show "\<exists>t'. (case multicolor_index src b s c bg x y of None \<Rightarrow> None
           | Some color_index \<Rightarrow>
               (case rd PALETTE (unat color_index) of None \<Rightarrow> None
                | Some rgb \<Rightarrow> write_rgb_pixel u (int x) (int y) rgb)) = Some t' \<and>
         same_shape surf t'" .
  qed
qed

text \<open>A successful \<open>set_size\<close> determines the whole surface.\<close>

lemma set_size_320_200:
  "set_size 320 200 rgb888 True surf =
     (True, \<lparr>pixels = replicate 192000 0, palette = [], subrects = [], width = 320, height = 200,
             pitch = 960, format = rgb888\<rparr>)"
  by (simp add: set_size_def SIZE_MAX_def MAX_BUFFER_SIZE_def Let_def)

lemma set_size_320_200_fail:
  "set_size 320 200 rgb888 False surf =
     (False, surf\<lparr>width := 320, height := 200, format := rgb888, pitch := 960\<rparr>)"
  by (simp add: set_size_def SIZE_MAX_def MAX_BUFFER_SIZE_def Let_def)


lemma koala_image_drop2:
  assumes "length u = 10003" "p = drop 2 u"
  shows "koala_decode_image u [] u (2, 2 + BITMAP_SIZE, 2 + BITMAP_SIZE + SCREEN_RAM_SIZE,
            2 + BITMAP_SIZE + SCREEN_RAM_SIZE + COLOR_RAM_SIZE) surf options resize_ok =
         koala_decode_image c p p (0, BITMAP_SIZE, BITMAP_SIZE + SCREEN_RAM_SIZE,
            BITMAP_SIZE + SCREEN_RAM_SIZE + COLOR_RAM_SIZE) surf options resize_ok"
proof -
  from assms have lp: "length p = 10001" "p \<noteq> []" by auto
  have r: "rd p 10000 = rd u 10002" unfolding assms(2) rd_drop by simp
  have d: "decode_multicolor p 0 8000 9000 bg s = decode_multicolor u 2 8002 9002 bg s" for bg s
    unfolding assms(2) decode_multicolor_drop by simp
  show ?thesis
    unfolding koala_decode_image_def BITMAP_SIZE_def SCREEN_RAM_SIZE_def COLOR_RAM_SIZE_def
    using assms(1) lp
    by (cases resize_ok)
      (simp_all add: r d set_size_320_200 set_size_320_200_fail MULTICOLOR_WIDTH_def
        MULTICOLOR_HEIGHT_def)
qed

lemma koala_image_same:
  assumes "length p = 10001"
  shows "koala_decode_image p [] p offs surf options resize_ok =
         koala_decode_image c p p offs surf options resize_ok"
proof -
  from assms have "p \<noteq> []" by auto
  then show ?thesis unfolding koala_decode_image_def by simp
qed

lemma koala_decode_gg:
  assumes "is_gg_koala c" "decompress_gg c 2 [] KOALA_SIZE_WITHOUT_ADDR = Some (True, p)"
  shows "koala_decode c surf options resize_ok =
     koala_decode_image c p p (0, BITMAP_SIZE, BITMAP_SIZE + SCREEN_RAM_SIZE,
        BITMAP_SIZE + SCREEN_RAM_SIZE + COLOR_RAM_SIZE) surf options resize_ok"
proof -
  from assms(1) have "c \<noteq> []" by (auto simp: is_gg_koala_def)
  with assms show ?thesis by (simp add: koala_decode_def)
qed

lemma koala_decode_plain:
  assumes "koala_offsets (length u) = Some offs"
  shows "koala_decode u surf options resize_ok = koala_decode_image u [] u offs surf options resize_ok"
proof -
  from assms have l: "length u \<ge> 10001"
    by (auto simp: koala_offsets_def KOALA_SIZE_WITHOUT_ADDR_def KOALA_SIZE_WITH_ADDR_def
        KOALA_SIZE_OCP_def split: if_splits)
  then have "u \<noteq> []" "\<not> is_gg_koala u"
    by (auto simp: is_gg_koala_def KOALA_SIZE_WITHOUT_ADDR_def)
  with assms show ?thesis by (simp add: koala_decode_def)
qed

lemma decompress_gg_length:
  assumes "decompress_gg c off [] n = Some (True, p)"
  shows "length p = n"
proof -
  from assms have "gg_loop c n off [] = Some (True, p)"
    by (auto simp: decompress_gg_def split: if_splits)
  with gg_loop_total [of "[]" n c off] show ?thesis by auto
qed

lemma koala_decode_same:
  assumes "is_gg_koala c" "decompress_gg c 2 [] KOALA_SIZE_WITHOUT_ADDR = Some (True, p)"
    "(length u = KOALA_SIZE_WITHOUT_ADDR \<and> u = p) \<or> (length u = KOALA_SIZE_WITH_ADDR \<and> drop 2 u = p)"
  shows "koala_decode c surf options resize_ok = koala_decode u surf options resize_ok"
proof -
  note g = koala_decode_gg [OF assms(1,2)]
  from decompress_gg_length [OF assms(2)] have lp: "length p = 10001"
    by (simp add: KOALA_SIZE_WITHOUT_ADDR_def)
  from assms(3) show ?thesis
  proof
    assume a: "length u = KOALA_SIZE_WITHOUT_ADDR \<and> u = p"
    with lp have "koala_offsets (length u) = Some (0, BITMAP_SIZE, BITMAP_SIZE + SCREEN_RAM_SIZE,
        BITMAP_SIZE + SCREEN_RAM_SIZE + COLOR_RAM_SIZE)"
      by (simp add: koala_offsets_def KOALA_SIZE_WITHOUT_ADDR_def KOALA_SIZE_WITH_ADDR_def
          KOALA_SIZE_OCP_def)
    from koala_decode_plain [OF this] a koala_image_same [OF lp] show ?thesis
      unfolding g by simp
  next
    assume a: "length u = KOALA_SIZE_WITH_ADDR \<and> drop 2 u = p"
    then have "koala_offsets (length u) = Some (2, 2 + BITMAP_SIZE, 2 + BITMAP_SIZE + SCREEN_RAM_SIZE,
        2 + BITMAP_SIZE + SCREEN_RAM_SIZE + COLOR_RAM_SIZE)"
      by (simp add: koala_offsets_def KOALA_SIZE_WITHOUT_ADDR_def KOALA_SIZE_WITH_ADDR_def)
    from koala_decode_plain [OF this] koala_image_drop2 [of u p] a show ?thesis
      unfolding g by (simp add: KOALA_SIZE_WITH_ADDR_def)
  qed
qed

lemma koala_image_success:
  assumes "length src = 10001" "decompressed = src \<or> (decompressed = [] \<and> length data = 10001)"
    "max_width options \<le> 0 \<or> 320 \<le> max_width options"
    "max_height options \<le> 0 \<or> 200 \<le> max_height options"
  shows "\<exists>t. (\<forall>surf. koala_decode_image data decompressed src (0, BITMAP_SIZE, BITMAP_SIZE + SCREEN_RAM_SIZE,
        BITMAP_SIZE + SCREEN_RAM_SIZE + COLOR_RAM_SIZE) surf options True = Some (success, t)) \<and>
      width t = 320 \<and> height t = 200 \<and> format t = rgb888 \<and> length (pixels t) = 192000"
proof -
  define fresh where "fresh = \<lparr>pixels = replicate 192000 (0::byte), palette = [], subrects = [],
     width = 320, height = 200, pitch = 960, format = rgb888\<rparr>"
  from assms(1) have "0 + 8000 \<le> length src" "8000 + 1000 \<le> length src" "9000 + 1000 \<le> length src"
    by simp_all
  from decode_multicolor_total [OF this, of "src ! 10000" fresh] obtain t where
    t: "decode_multicolor src 0 8000 9000 (src ! 10000) fresh = Some t" "same_shape fresh t"
    by auto
  from assms(1) have r: "rd src 10000 = Some (src ! 10000)" by simp
  from assms(1,2) have av: "(if decompressed = [] then length data else length decompressed) = 10001"
    by auto
  have "koala_decode_image data decompressed src (0, BITMAP_SIZE, BITMAP_SIZE + SCREEN_RAM_SIZE,
        BITMAP_SIZE + SCREEN_RAM_SIZE + COLOR_RAM_SIZE) surf options True = Some (success, t)" for surf
    unfolding koala_decode_image_def BITMAP_SIZE_def SCREEN_RAM_SIZE_def COLOR_RAM_SIZE_def
    using assms(3,4) t(1)
    by (auto simp: av r set_size_320_200 MULTICOLOR_WIDTH_def MULTICOLOR_HEIGHT_def
        simp flip: fresh_def)
  moreover from t(2) have "width t = 320 \<and> height t = 200 \<and> format t = rgb888 \<and>
      length (pixels t) = 192000"
    by (simp add: same_shape_def fresh_def)
  ultimately show ?thesis by blast
qed


text \<open>
  Claim C1. Let \<open>c\<close> be a GG-compressed Koala file (\<open>is_gg_koala\<close>) that decompresses
  to the payload \<open>p\<close>, and \<open>u\<close> an uncompressed Koala file with the same payload:
  either the 10001-byte file \<open>p\<close> itself or a 10003-byte file whose bytes after the
  two-byte load address are \<open>p\<close> (the payloads of the 10006- and 10018-byte variants
  are longer than a decompressed payload). Then decoding \<open>c\<close> and \<open>u\<close> gives the same
  result and the same surface, for every option and allocation outcome; and when the
  limits admit 320 x 200 and the allocation succeeds, both decodes succeed, from any
  two starting surfaces, with one and the same surface: 320 x 200, \<open>rgb888\<close>, 192000
  pixel bytes.
\<close>

theorem koala_gg_same_as_uncompressed:
  assumes "is_gg_koala c" "decompress_gg c 2 [] KOALA_SIZE_WITHOUT_ADDR = Some (True, p)"
    "(length u = KOALA_SIZE_WITHOUT_ADDR \<and> u = p) \<or> (length u = KOALA_SIZE_WITH_ADDR \<and> drop 2 u = p)"
  shows "koala_decode c surf options resize_ok = koala_decode u surf options resize_ok \<and>
     ((max_width options \<le> 0 \<or> 320 \<le> max_width options) \<and>
      (max_height options \<le> 0 \<or> 200 \<le> max_height options) \<longrightarrow>
      (\<exists>t. koala_decode c surf1 options True = Some (success, t) \<and>
           koala_decode u surf2 options True = Some (success, t) \<and>
           width t = 320 \<and> height t = 200 \<and> format t = rgb888 \<and>
           length (pixels t) = 320 * 200 * 3))"
proof (intro conjI impI)
  show "koala_decode c surf options resize_ok = koala_decode u surf options resize_ok"
    by (rule koala_decode_same [OF assms])
next
  assume lim: "(max_width options \<le> 0 \<or> 320 \<le> max_width options) \<and>
      (max_height options \<le> 0 \<or> 200 \<le> max_height options)"
  from decompress_gg_length [OF assms(2)] have lp: "length p = 10001"
    by (simp add: KOALA_SIZE_WITHOUT_ADDR_def)
  from lim koala_image_success [OF lp disjI1 [OF refl], of options c] obtain t where
    t: "\<And>surf. koala_decode_image c p p (0, BITMAP_SIZE, BITMAP_SIZE + SCREEN_RAM_SIZE,
        BITMAP_SIZE + SCREEN_RAM_SIZE + COLOR_RAM_SIZE) surf options True = Some (success, t)"
      "width t = 320 \<and> height t = 200 \<and> format t = rgb888 \<and> length (pixels t) = 192000"
    by blast
  have c: "koala_decode c surf options True = Some (success, t)" for surf
    unfolding koala_decode_gg [OF assms(1,2)] by (rule t(1))
  have "koala_decode u surf2 options True = Some (success, t)"
    using koala_decode_same [OF assms, of surf2 options True] c [of surf2] by simp
  with c [of surf1] t(2)
  show "\<exists>t. koala_decode c surf1 options True = Some (success, t) \<and>
           koala_decode u surf2 options True = Some (success, t) \<and>
           width t = 320 \<and> height t = 200 \<and> format t = rgb888 \<and>
           length (pixels t) = 320 * 200 * 3"
    by auto
qed

lemma gg_loop_runs:
  assumes "0 < unat cnt"
  shows "length out + k * unat cnt \<le> n \<Longrightarrow>
    gg_loop (pre @ concat (replicate k [GG_RLE_ESCAPE, v, cnt]) @ rest) n (length pre) out =
    gg_loop (pre @ concat (replicate k [GG_RLE_ESCAPE, v, cnt]) @ rest) n (length pre + 3 * k)
      (out @ replicate (k * unat cnt) v)"
proof (induction k arbitrary: pre out)
  case 0
  then show ?case by simp
next
  case (Suc k)
  define data where "data = pre @ concat (replicate (Suc k) [GG_RLE_ESCAPE, v, cnt]) @ rest"
  have d: "data = (pre @ [GG_RLE_ESCAPE, v, cnt]) @ concat (replicate k [GG_RLE_ESCAPE, v, cnt]) @ rest"
    by (simp add: data_def)
  have at: "data ! length pre = GG_RLE_ESCAPE" "data ! (length pre + 1) = v"
    "data ! (length pre + 2) = cnt" "length pre + 2 < length data"
    by (simp_all add: data_def nth_append)
  from Suc.prems assms have o: "length out < n" "min (unat cnt) (n - length out) = unat cnt"
    by simp_all
  have step: "gg_loop data n (length pre) out =
      gg_loop data n (length pre + 3) (out @ replicate (unat cnt) v)"
    using at o by (subst gg_loop.simps) (simp add: Let_def)
  from Suc.prems have "length (out @ replicate (unat cnt) v) + k * unat cnt \<le> n" by simp
  from Suc.IH [OF this, of "pre @ [GG_RLE_ESCAPE, v, cnt]"]
  have "gg_loop data n (length pre + 3) (out @ replicate (unat cnt) v) =
      gg_loop data n (length pre + 3 + 3 * k) ((out @ replicate (unat cnt) v) @ replicate (k * unat cnt) v)"
    unfolding d by (simp add: numeral_3_eq_3)
  then have "gg_loop data n (length pre) out =
      gg_loop data n (length pre + 3 + 3 * k) ((out @ replicate (unat cnt) v) @ replicate (k * unat cnt) v)"
    using step by (rule trans [rotated])
  moreover have "length pre + 3 + 3 * k = length pre + 3 * Suc k" by simp
  moreover have "(out @ replicate (unat cnt) v) @ replicate (k * unat cnt) v =
      out @ replicate (Suc k * unat cnt) v"
    by (simp add: replicate_add)
  ultimately show ?case unfolding data_def [symmetric] by (simp only:)
qed


lemma gg_sample_is_gg: "is_gg_koala gg_sample"
proof -
  have l: "length gg_sample = 123" by (simp add: gg_sample_def length_concat sum_list_replicate)
  have a: "(ucast (gg_sample ! 0) OR push_bit 8 (ucast (gg_sample ! 1)) :: u16) = 0x6000"
    by (simp add: gg_sample_def)
  have e: "list_ex (\<lambda>b. b = GG_RLE_ESCAPE) (drop 2 gg_sample)"
    by (simp add: gg_sample_def list_ex_iff GG_RLE_ESCAPE_def)
  show ?thesis
    unfolding is_gg_koala_def Let_def a using l e by (simp add: KOALA_SIZE_WITHOUT_ADDR_def)
qed

lemma gg_sample_decompress:
  "decompress_gg gg_sample 2 [] KOALA_SIZE_WITHOUT_ADDR = Some (True, replicate 10001 1)"
proof -
  have l: "length gg_sample = 123" by (simp add: gg_sample_def length_concat sum_list_replicate)
  have c: "unat (250 :: byte) = 250" by simp
  have "gg_loop gg_sample 10001 (length [0x00, 0x60 :: byte]) [] =
      gg_loop gg_sample 10001 (length [0x00, 0x60 :: byte] + 3 * 40) ([] @ replicate (40 * unat (250 :: byte)) 1)"
    unfolding gg_sample_def GG_RLE_ESCAPE_def [symmetric]
    by (rule gg_loop_runs) (simp_all add: c)
  moreover have "length [0x00, 0x60 :: byte] = 2" "length [0x00, 0x60 :: byte] + 3 * 40 = 122"
    "[] @ replicate (40 * unat (250 :: byte)) (1 :: byte) = replicate 10000 1"
    by (simp_all add: c)
  ultimately have r: "gg_loop gg_sample 10001 2 [] = gg_loop gg_sample 10001 122 (replicate 10000 1)"
    by (simp only:)
  have at: "gg_sample ! 122 = 1"
    by (simp add: gg_sample_def nth_append length_concat sum_list_replicate)
  have "gg_loop gg_sample 10001 122 (replicate 10000 1) =
      gg_loop gg_sample 10001 123 (replicate 10000 1 @ [1])"
    by (subst gg_loop.simps) (simp add: l at GG_RLE_ESCAPE_def)
  also have "\<dots> = Some (True, replicate 10000 1 @ [1])"
    by (subst gg_loop.simps) (simp add: l)
  also have "replicate 10000 1 @ [1 :: byte] = replicate 10001 1"
  proof -
    have "replicate 10000 1 @ [1 :: byte] = replicate (Suc 10000) 1"
      by (simp only: replicate_append_same replicate_Suc)
    moreover have "Suc 10000 = 10001" by simp
    ultimately show ?thesis by (simp only:)
  qed
  finally show ?thesis
    unfolding decompress_gg_def KOALA_SIZE_WITHOUT_ADDR_def MAX_COMPRESSION_RATIO_def
    by (simp add: l r)
qed

text \<open>
  Witness for C1: forty runs of 250 bytes and one literal decompress to 10001 equal
  bytes; the uncompressed file has that payload after its load address.
\<close>

theorem koala_gg_same_as_uncompressed_witness:
  "koala_decode gg_sample empty_surface default_options True =
     koala_decode ([0x00, 0x60] @ replicate 10001 1) empty_surface default_options True \<and>
   (\<exists>t. koala_decode gg_sample empty_surface default_options True = Some (success, t) \<and>
        koala_decode ([0x00, 0x60] @ replicate 10001 1) empty_surface default_options True =
          Some (success, t) \<and>
        width t = 320 \<and> height t = 200 \<and> format t = rgb888 \<and> length (pixels t) = 320 * 200 * 3)"
proof -
  have u: "(length ([0x00, 0x60] @ replicate 10001 (1 :: byte)) = KOALA_SIZE_WITHOUT_ADDR \<and>
      [0x00, 0x60] @ replicate 10001 (1 :: byte) = replicate 10001 1) \<or>
     (length ([0x00, 0x60] @ replicate 10001 (1 :: byte)) = KOALA_SIZE_WITH_ADDR \<and>
      drop 2 ([0x00, 0x60] @ replicate 10001 (1 :: byte)) = replicate 10001 1)"
    by (simp add: KOALA_SIZE_WITH_ADDR_def)
  from koala_gg_same_as_uncompressed [OF gg_sample_is_gg gg_sample_decompress u,
      of empty_surface default_options True empty_surface empty_surface]
  show ?thesis by (auto simp: default_options_def)
qed


section \<open>Dimension limits\<close>


lemma validate_dimensions_default:
  assumes "max_width options \<le> 0" "max_height options \<le> 0"
  shows "validate_dimensions wd ht options dflt =
     (if wd > dflt \<or> ht > dflt then failure dimensions_exceeded ''Image dimensions exceed limits''
      else success)"
  using assms by (auto simp: validate_dimensions_def get_dimension_limits_def Let_def)





section \<open>The QOI pixel loop\<close>

lemma for_loop_upt:
  assumes "a \<le> b" "P a s"
    "\<And>i s. a \<le> i \<Longrightarrow> i < b \<Longrightarrow> P i s \<Longrightarrow> \<exists>s'. body i s = Some s' \<and> P (Suc i) s'"
  shows "\<exists>s'. for_loop [a..<b] body s = Some s' \<and> P b s'"
  using assms
proof (induction "b - a" arbitrary: a s)
  case 0
  then show ?case by simp
next
  case (Suc d)
  then have ab: "a < b" by simp
  from Suc.prems(3) [of a s] ab Suc.prems(2) obtain s1 where s1: "body a s = Some s1" "P (Suc a) s1"
    by auto
  have "\<exists>s'. for_loop [Suc a..<b] body s1 = Some s' \<and> P b s'"
  proof (rule Suc.hyps(1))
    show "d = b - Suc a" using Suc.hyps(2) by simp
    show "Suc a \<le> b" using ab by simp
    show "P (Suc a) s1" by (rule s1(2))
    show "\<exists>s'. body i s = Some s' \<and> P (Suc i) s'" if "Suc a \<le> i" "i < b" "P i s" for i s
      using Suc.prems(3) [of i s] that by simp
  qed
  with s1 ab show ?case by (simp add: upt_conv_Cons)
qed

lemma int_of_size_id:
  assumes "n < 2 ^ 31"
  shows "int_of_size n = int n"
proof -
  from assms have "n < 2 ^ 32" by simp
  then have "unat (word_of_nat n :: u32) = n" by (simp add: unat_of_nat)
  then have u: "uint (word_of_nat n :: u32) = int n" by (simp only: uint_nat)
  have "sint (word_of_nat n :: u32) = signed_take_bit 31 (uint (word_of_nat n :: u32))"
    by (simp add: sint_uint)
  also have "\<dots> = int n" unfolding u
    using assms by (intro signed_take_bit_int_eq_self) simp_all
  finally show ?thesis by (simp add: int_of_size_def)
qed

lemma sint_pos_uint:
  fixes w :: u32
  assumes "0 < sint w"
  shows "uint w = sint w" "int (unat w) = sint w"
proof -
  have "sint w < 2 ^ 31" using sint_lt [of w] by simp
  then have "sint w < 2 ^ 32" by simp
  have "uint w = take_bit 32 (sint w)" using uint_sint [of w] by simp
  also have "\<dots> = sint w" using assms \<open>sint w < 2 ^ 32\<close> by (intro take_bit_int_eq_self) simp_all
  finally show "uint w = sint w" .
  then show "int (unat w) = sint w" by (simp only: uint_nat)
qed

lemma read_be32_total: "p + 4 \<le> length data \<Longrightarrow> \<exists>v. read_be32 data p = Some v"
  by (simp add: read_be32_def)

lemma top_bits_clear:
  fixes b :: byte
  assumes "b AND 0xC0 = 0"
  shows "unat b < 64"
proof -
  have "(0xC0 OR 0x3F :: byte) = - 1" by simp
  then have "b = b AND (0xC0 OR 0x3F)" by (simp only: and.right_neutral)
  also have "\<dots> = (b AND 0xC0) OR (b AND 0x3F)" by (simp only: bit.conj_disj_distrib)
  also have "\<dots> = b AND 0x3F" using assms by simp
  finally have "b = b AND 0x3F" .
  moreover have "b AND 0x3F \<le> 0x3F" by (rule word_and_le1)
  ultimately have "b \<le> 0x3F" by simp
  then have "unat b \<le> unat (0x3F :: byte)" by (simp only: word_le_nat_alt)
  then show ?thesis by simp
qed

lemma wr_hash:
  "length idx = 64 \<Longrightarrow>
   wr idx (qoi_color_hash r g b a) v = Some (idx[qoi_color_hash r g b a := v])"
  by (simp add: qoi_color_hash_def)

lemma qoi_chunk_total:
  assumes "src_end \<le> length data" "q_src_pos st < src_end" "length (q_index st) = 64"
  shows "\<exists>r. qoi_chunk data src_end st = Some r \<and> chunk_ok st r"
proof -
  define b1 where "b1 = data ! q_src_pos st"
  define p where "p = q_src_pos st + 1"
  from assms have r0: "rd data (q_src_pos st) = Some b1" by (simp add: b1_def)
  note fin = wr_hash [OF assms(3)] chunk_ok_def assms(3)
  note err = chunk_ok_def failure_def
  show ?thesis
  proof (cases "b1 = QOI_OP_RGB")
    case True
    show ?thesis
    proof (cases "p + 3 > src_end")
      case True
      with \<open>b1 = QOI_OP_RGB\<close> show ?thesis
        unfolding qoi_chunk_def r0 option.case Let_def p_def [symmetric]
        by (simp add: err)
    next
      case False
      with assms(1) have "rd data p = Some (data ! p)" "rd data (p + 1) = Some (data ! (p + 1))"
        "rd data (p + 2) = Some (data ! (p + 2))" by simp_all
      with False \<open>b1 = QOI_OP_RGB\<close> show ?thesis
        unfolding qoi_chunk_def r0 option.case Let_def p_def [symmetric]
        by (simp add: fin)
    qed
  next
    case nrgb: False
    show ?thesis
    proof (cases "b1 = QOI_OP_RGBA")
      case True
      show ?thesis
      proof (cases "p + 4 > src_end")
        case True
        with \<open>b1 = QOI_OP_RGBA\<close> nrgb show ?thesis
          unfolding qoi_chunk_def r0 option.case Let_def p_def [symmetric]
          by (simp add: err)
      next
        case False
        with assms(1) have "rd data p = Some (data ! p)" "rd data (p + 1) = Some (data ! (p + 1))"
          "rd data (p + 2) = Some (data ! (p + 2))" "rd data (p + 3) = Some (data ! (p + 3))"
          by simp_all
        with False \<open>b1 = QOI_OP_RGBA\<close> nrgb show ?thesis
          unfolding qoi_chunk_def r0 option.case Let_def p_def [symmetric]
          by (simp add: fin)
      qed
    next
      case nrgba: False
      show ?thesis
      proof (cases "b1 AND QOI_MASK_2 = QOI_OP_INDEX")
        case True
        then have "unat b1 < 64" by (intro top_bits_clear) (simp add: QOI_MASK_2_def QOI_OP_INDEX_def)
        with assms(3) have "rd (q_index st) (unat b1) = Some (q_index st ! unat b1)" by simp
        with True nrgb nrgba show ?thesis
          unfolding qoi_chunk_def r0 option.case Let_def p_def [symmetric]
          by (simp add: fin)
      next
        case nidx: False
        show ?thesis
        proof (cases "b1 AND QOI_MASK_2 = QOI_OP_DIFF")
          case True
          with nrgb nrgba nidx show ?thesis
            unfolding qoi_chunk_def r0 option.case Let_def p_def [symmetric]
            by (simp add: fin)
        next
          case ndiff: False
          show ?thesis
          proof (cases "b1 AND QOI_MASK_2 = QOI_OP_LUMA")
            case True
            show ?thesis
            proof (cases "p \<ge> src_end")
              case True
              with \<open>b1 AND QOI_MASK_2 = QOI_OP_LUMA\<close> nrgb nrgba nidx ndiff show ?thesis
                unfolding qoi_chunk_def r0 option.case Let_def p_def [symmetric]
                by (simp add: err)
            next
              case False
              with assms(1) have "rd data p = Some (data ! p)" by simp
              with False \<open>b1 AND QOI_MASK_2 = QOI_OP_LUMA\<close> nrgb nrgba nidx ndiff show ?thesis
                unfolding qoi_chunk_def r0 option.case Let_def p_def [symmetric]
                by (simp add: fin)
            qed
          next
            case nluma: False
            with nrgb nrgba nidx ndiff show ?thesis
              unfolding qoi_chunk_def r0 option.case Let_def p_def [symmetric]
              by (cases "b1 AND QOI_MASK_2 = QOI_OP_RUN") (simp_all add: fin)
          qed
        qed
      qed
    qed
  qed
qed

lemma take_update3:
  assumes "d + 3 \<le> length xs"
  shows "take (d + 3) (xs[d := a, d + 1 := b, d + 2 := c]) = take d xs @ [a, b, c]"
proof (rule nth_equalityI)
  show "length (take (d + 3) (xs[d := a, d + 1 := b, d + 2 := c])) = length (take d xs @ [a, b, c])"
    using assms by simp
next
  fix i
  assume "i < length (take (d + 3) (xs[d := a, d + 1 := b, d + 2 := c]))"
  then have i: "i < d + 3" by simp
  consider "i < d" | "i = d" | "i = d + 1" | "i = d + 2" using i by linarith
  then show "take (d + 3) (xs[d := a, d + 1 := b, d + 2 := c]) ! i = (take d xs @ [a, b, c]) ! i"
    using assms by cases (simp_all add: nth_append)
qed

lemma take_update4:
  assumes "d + 4 \<le> length xs"
  shows "take (d + 4) (xs[d := a, d + 1 := b, d + 2 := c, d + 3 := e]) = take d xs @ [a, b, c, e]"
proof (rule nth_equalityI)
  show "length (take (d + 4) (xs[d := a, d + 1 := b, d + 2 := c, d + 3 := e])) =
      length (take d xs @ [a, b, c, e])"
    using assms by simp
next
  fix i
  assume "i < length (take (d + 4) (xs[d := a, d + 1 := b, d + 2 := c, d + 3 := e]))"
  then have i: "i < d + 4" by simp
  consider "i < d" | "i = d" | "i = d + 1" | "i = d + 2" | "i = d + 3" using i by linarith
  then show "take (d + 4) (xs[d := a, d + 1 := b, d + 2 := c, d + 3 := e]) ! i =
      (take d xs @ [a, b, c, e]) ! i"
    using assms by cases (simp_all add: nth_append)
qed

lemma qoi_emit_total:
  assumes "ch = 3 \<or> ch = 4" "q_dst_pos st + unat ch \<le> length (q_pixels st)"
  shows "\<exists>st'. qoi_emit ch st = Some st' \<and> emit_ok ch st st'"
  using assms(1)
proof
  assume ch: "ch = 3"
  with assms(2) have l: "q_dst_pos st + 3 \<le> length (q_pixels st)" by simp
  then show ?thesis
    unfolding qoi_emit_def Let_def emit_ok_def px_bytes_def ch
    using take_update3 [OF l] by simp
next
  assume ch: "ch = 4"
  with assms(2) have l: "q_dst_pos st + 4 \<le> length (q_pixels st)" by simp
  then show ?thesis
    unfolding qoi_emit_def Let_def emit_ok_def px_bytes_def ch
    using take_update4 [OF l] by simp
qed

lemma qoi_step_total:
  assumes "src_end \<le> length data" "ch = 3 \<or> ch = 4" "length (q_index st) = 64"
    "q_dst_pos st + unat ch \<le> length (q_pixels st)"
  shows "\<exists>r. qoi_step data src_end ch st = Some r \<and> step_ok ch 1 st r"
proof -
  have "\<exists>r. (if q_run st > 0 then Some (Inr (st\<lparr>q_run := q_run st - 1\<rparr>))
         else if q_src_pos st < src_end then qoi_chunk data src_end st
         else Some (Inr st)) = Some r \<and> chunk_ok st r"
    using qoi_chunk_total [OF assms(1) _ assms(3)] assms(3) by (simp add: chunk_ok_def)
  then obtain r where r: "(if q_run st > 0 then Some (Inr (st\<lparr>q_run := q_run st - 1\<rparr>))
         else if q_src_pos st < src_end then qoi_chunk data src_end st
         else Some (Inr st)) = Some r" "chunk_ok st r" by blast
  show ?thesis
  proof (cases r)
    case (Inl e)
    with r show ?thesis by (simp add: qoi_step_def step_ok_def chunk_ok_def)
  next
    case (Inr st1)
    with r(2) have st1: "length (q_index st1) = 64" "q_dst_pos st1 = q_dst_pos st"
      "q_pixels st1 = q_pixels st" by (simp_all add: chunk_ok_def)
    with assms(4) have "q_dst_pos st1 + unat ch \<le> length (q_pixels st1)" by simp
    from qoi_emit_total [OF assms(2) this] obtain st' where
      "qoi_emit ch st1 = Some st'" "emit_ok ch st1 st'" by blast
    with r(1) Inr st1 show ?thesis
      by (simp add: qoi_step_def step_ok_def emit_ok_def)
  qed
qed

lemma qoi_loop_total:
  assumes "src_end \<le> length data" "ch = 3 \<or> ch = 4"
  shows "length (q_index st) = 64 \<Longrightarrow> q_dst_pos st + m * unat ch \<le> length (q_pixels st) \<Longrightarrow>
    \<exists>r. qoi_loop data src_end ch m st = Some r \<and> step_ok ch m st r"
proof (induction m arbitrary: st)
  case 0
  then show ?case by (simp add: step_ok_def)
next
  case (Suc m)
  from Suc.prems have "q_dst_pos st + unat ch \<le> length (q_pixels st)" by simp
  from qoi_step_total [OF assms Suc.prems(1) this] obtain r where
    r: "qoi_step data src_end ch st = Some r" "step_ok ch 1 st r" by blast
  show ?case
  proof (cases r)
    case (Inl e)
    with r show ?thesis by (simp add: step_ok_def)
  next
    case (Inr st1)
    with r(2) have st1: "length (q_index st1) = 64" "q_dst_pos st1 = q_dst_pos st + unat ch"
      "length (q_pixels st1) = length (q_pixels st)" by (simp_all add: step_ok_def)
    with Suc.prems have "q_dst_pos st1 + m * unat ch \<le> length (q_pixels st1)" by simp
    from Suc.IH [OF st1(1) this] obtain r' where
      r': "qoi_loop data src_end ch m st1 = Some r'" "step_ok ch m st1 r'" by blast
    with r(1) Inr st1 show ?thesis
      by (cases r') (simp_all add: step_ok_def)
  qed
qed

lemma qoi_loop_add:
  "qoi_loop data src_end ch (k + m) st =
     (case qoi_loop data src_end ch k st of None \<Rightarrow> None
      | Some (Inl e) \<Rightarrow> Some (Inl e)
      | Some (Inr st') \<Rightarrow> qoi_loop data src_end ch m st')"
proof (induction k arbitrary: st)
  case 0
  then show ?case by simp
next
  case (Suc k)
  show ?case
  proof (cases "qoi_step data src_end ch st")
    case None
    then show ?thesis by simp
  next
    case (Some r)
    then show ?thesis by (cases r) (simp_all add: Suc.IH)
  qed
qed

lemma qoi_step_exhausted:
  assumes "ch = 3 \<or> ch = 4" "src_end \<le> q_src_pos st"
    "q_dst_pos st + unat ch \<le> length (q_pixels st)"
  shows "\<exists>st'. qoi_step data src_end ch st = Some (Inr st') \<and> pad_ok ch 1 st st'"
proof -
  define st1 where "st1 = (if q_run st > 0 then st\<lparr>q_run := q_run st - 1\<rparr> else st)"
  have s1: "q_dst_pos st1 = q_dst_pos st" "q_pixels st1 = q_pixels st" "q_px st1 = q_px st"
    "q_src_pos st1 = q_src_pos st" by (simp_all add: st1_def)
  with assms(3) have "q_dst_pos st1 + unat ch \<le> length (q_pixels st1)" by simp
  from qoi_emit_total [OF assms(1) this] obtain st' where
    e: "qoi_emit ch st1 = Some st'" "emit_ok ch st1 st'" by blast
  from assms(2) have "qoi_step data src_end ch st = map_option Inr (qoi_emit ch st1)"
    by (simp add: qoi_step_def st1_def)
  with e s1 show ?thesis by (simp add: pad_ok_def emit_ok_def)
qed

lemma qoi_loop_exhausted:
  assumes "ch = 3 \<or> ch = 4"
  shows "src_end \<le> q_src_pos st \<Longrightarrow> q_dst_pos st + m * unat ch \<le> length (q_pixels st) \<Longrightarrow>
    \<exists>st'. qoi_loop data src_end ch m st = Some (Inr st') \<and> pad_ok ch m st st'"
proof (induction m arbitrary: st)
  case 0
  then show ?case by (simp add: pad_ok_def)
next
  case (Suc m)
  from Suc.prems have "q_dst_pos st + unat ch \<le> length (q_pixels st)" by simp
  from qoi_step_exhausted [OF assms Suc.prems(1) this] obtain st1 where
    s: "qoi_step data src_end ch st = Some (Inr st1)" "pad_ok ch 1 st st1" by blast
  from s(2) Suc.prems have "src_end \<le> q_src_pos st1"
    "q_dst_pos st1 + m * unat ch \<le> length (q_pixels st1)" by (simp_all add: pad_ok_def)
  from Suc.IH [OF this] obtain st' where
    l: "qoi_loop data src_end ch m st1 = Some (Inr st')" "pad_ok ch m st1 st'" by blast
  from s(2) l(2) have "pad_ok ch (Suc m) st st'" by (simp add: pad_ok_def add.assoc)
  with s(1) l(1) show ?case by simp
qed

lemma write_pixels_row:
  assumes "0 \<le> y" "y < height t" "0 < n" "n \<le> pitch t"
    "nat y * pitch t + n \<le> length (pixels t)" "n \<le> length src"
  shows "write_pixels 0 y (int n) (Some src) t =
     Some (t\<lparr>pixels := copy_bytes (pixels t) (nat y * pitch t) (take n src)\<rparr>)"
proof -
  from assms(3,4) have m: "min n (pitch t) = n" and p: "\<not> pitch t \<le> 0" by simp_all
  from assms show ?thesis
    unfolding write_pixels_def Let_def by (simp add: m)
qed

lemma write_rows_copies:
  assumes "height s = int H" "pitch s = rb" "length (pixels s) = H * rb" "0 < rb" "rb < 2 ^ 31"
    "H * rb \<le> length buf"
  shows "write_rows s buf rb (int H) = Some (s\<lparr>pixels := take (H * rb) buf\<rparr>)"
proof -
  define P where "P y t \<longleftrightarrow> t = s\<lparr>pixels := take (y * rb) buf @ drop (y * rb) (pixels s)\<rparr>" for y t
  have "\<exists>t. for_loop [0..<H]
      (\<lambda>y. write_pixels 0 (int y) (int_of_size rb) (Some (drop (y * rb) buf))) s = Some t \<and> P H t"
  proof (rule for_loop_upt)
    show "0 \<le> H" by simp
    show "P 0 s" by (simp add: P_def)
  next
    fix y t
    assume y: "0 \<le> y" "y < H" and t: "P y t"
    from y have yr: "y * rb + rb \<le> H * rb"
      by (metis Suc_leI mult_Suc mult_le_mono1 add.commute)
    with assms(6) have lb: "y * rb + rb \<le> length buf" by simp
    from t have pt: "pixels t = take (y * rb) buf @ drop (y * rb) (pixels s)"
      and sh: "height t = int H" "pitch t = rb"
      using assms(1,2) by (simp_all add: P_def)
    from lb have lt: "length (take (y * rb) buf) = y * rb" by simp
    have lpt: "length (pixels t) = H * rb" unfolding pt using lb assms(3) yr by simp
    have w: "write_pixels 0 (int y) (int rb) (Some (drop (y * rb) buf)) t =
        Some (t\<lparr>pixels := copy_bytes (pixels t) (nat (int y) * pitch t) (take rb (drop (y * rb) buf))\<rparr>)"
      by (rule write_pixels_row) (use y sh assms(4) lpt yr lb in simp_all)
    have "copy_bytes (pixels t) (y * rb) (take rb (drop (y * rb) buf)) =
        take (Suc y * rb) buf @ drop (Suc y * rb) (pixels s)"
    proof -
      have a: "take (y * rb) (pixels t) = take (y * rb) buf" unfolding pt using lt by simp
      have b: "drop (y * rb + rb) (pixels t) = drop (y * rb + rb) (pixels s)"
        unfolding pt using lt by (simp add: add.commute)
      have c: "take (y * rb) buf @ take rb (drop (y * rb) buf) = take (y * rb + rb) buf"
        by (simp add: take_add)
      have l: "length (take rb (drop (y * rb) buf)) = rb" using lb by simp
      show ?thesis unfolding copy_bytes_def l a b
        using c by (simp add: add.commute)
    qed
    with w sh have "write_pixels 0 (int y) (int rb) (Some (drop (y * rb) buf)) t =
        Some (t\<lparr>pixels := take (Suc y * rb) buf @ drop (Suc y * rb) (pixels s)\<rparr>)"
      by simp
    moreover have "P (Suc y) (t\<lparr>pixels := take (Suc y * rb) buf @ drop (Suc y * rb) (pixels s)\<rparr>)"
      using t by (simp add: P_def)
    ultimately show "\<exists>s'. write_pixels 0 (int y) (int_of_size rb) (Some (drop (y * rb) buf)) t = Some s' \<and>
        P (Suc y) s'"
      by (simp add: int_of_size_id [OF assms(5)])
  qed
  then show ?thesis
    unfolding write_rows_def using assms(3) by (simp add: P_def)
qed

lemma set_size_True:
  assumes "set_size wd ht fmt a s = (True, s1)"
  shows "0 < wd" "0 < ht" "a"
    "s1 = \<lparr>pixels = replicate (nat wd * bytes_per_pixel fmt * nat ht) 0, palette = [], subrects = [],
           width = wd, height = ht, pitch = nat wd * bytes_per_pixel fmt, format = fmt\<rparr>"
    "nat wd * bytes_per_pixel fmt * nat ht \<le> 2 ^ 30"
proof -
  from assms show "0 < wd" "0 < ht" "a"
    by (auto simp: set_size_def Let_def split: if_splits)
  with assms show "s1 = \<lparr>pixels = replicate (nat wd * bytes_per_pixel fmt * nat ht) 0, palette = [],
           subrects = [], width = wd, height = ht, pitch = nat wd * bytes_per_pixel fmt, format = fmt\<rparr>"
    "nat wd * bytes_per_pixel fmt * nat ht \<le> 2 ^ 30"
    by (auto simp: set_size_def Let_def MAX_BUFFER_SIZE_def split: if_splits)
qed

lemma qoi_decode_header:
  assumes "qoi_header data w h ch"
  shows "qoi_decode data surf options a =
     (let result = validate_dimensions (sint w) (sint h) options DEFAULT_MAX_DIMENSION in
      if \<not> ok result then Some (result, surf)
      else if unat w * unat h > MAX_PIXELS then
        Some (failure dimensions_exceeded ''QOI image too large'', surf)
      else
        (case set_size (sint w) (sint h) (if ch = 4 then rgba8888 else rgb888) a surf of
           (False, surf1) \<Rightarrow> Some (failure internal_error ''Failed to allocate surface'', surf1)
         | (True, surf1) \<Rightarrow>
             (case qoi_loop data (length data - QOI_END_MARKER_SIZE) ch (unat w * unat h)
                     (qoi_init (unat w * unat h * unat ch)) of
                None \<Rightarrow> None
              | Some (Inl e) \<Rightarrow> Some (e, surf1)
              | Some (Inr st) \<Rightarrow>
                  map_option (\<lambda>surf2. (success, surf2))
                    (write_rows surf1 (q_pixels st) (unat w * unat ch) (sint h)))))"
proof -
  from assms have l: "\<not> length data < QOI_HEADER_SIZE + QOI_END_MARKER_SIZE"
    and r: "read_be32 data 0 = Some QOI_MAGIC" "read_be32 data 4 = Some w"
      "read_be32 data 8 = Some h" "rd data 12 = Some ch"
    and v: "w \<noteq> 0" "h \<noteq> 0" "\<not> (ch \<noteq> 3 \<and> ch \<noteq> 4)"
    by (auto simp: qoi_header_def)
  obtain b surf1 where ss:
    "set_size (sint w) (sint h) (if ch = 4 then rgba8888 else rgb888) a surf = (b, surf1)"
    by (cases "set_size (sint w) (sint h) (if ch = 4 then rgba8888 else rgb888) a surf")
  from v(3) consider "ch = 3" | "ch = 4" by blast
  then show ?thesis
  proof cases
    case 1
    with ss show ?thesis
      unfolding qoi_decode_def using l v(1,2)
      by (cases b) (simp_all add: r Let_def cong: option.case_cong sum.case_cong)
  next
    case 2
    with ss show ?thesis
      unfolding qoi_decode_def using l v(1,2)
      by (cases b) (simp_all add: r Let_def cong: option.case_cong sum.case_cong)
  qed
qed

lemma qoi_fmt_bpp:
  fixes ch :: byte
  shows "ch = 3 \<or> ch = 4 \<Longrightarrow> bytes_per_pixel (if ch = 4 then rgba8888 else rgb888) = unat ch"
  by auto

text \<open>The decode after the surface is allocated: the loop result decides.\<close>

lemma qoi_write_rows:
  fixes w h :: u32 and ch :: byte
  assumes "set_size (sint w) (sint h) (if ch = 4 then rgba8888 else rgb888) a surf = (True, surf1)"
    "ch = 3 \<or> ch = 4" "length buf = unat w * unat h * unat ch"
  shows "write_rows surf1 buf (unat w * unat ch) (sint h) = Some (surf1\<lparr>pixels := buf\<rparr>)"
proof -
  note ss = set_size_True [OF assms(1)]
  have wh: "nat (sint w) = unat w" "nat (sint h) = unat h" "sint h = int (unat h)"
    by (simp_all only: sint_pos_uint(2) [OF ss(1), symmetric] sint_pos_uint(2) [OF ss(2), symmetric]
        nat_int)
  note bpp = qoi_fmt_bpp [OF assms(2)]
  from ss(1) have "0 < nat (sint w)" by simp
  then have w0: "0 < unat w" by (simp only: wh)
  from ss(2) have "0 < nat (sint h)" by simp
  then have h0: "0 < unat h" by (simp only: wh)
  from assms(2) have c0: "0 < unat ch" by auto
  have tot: "unat w * unat ch * unat h \<le> 2 ^ 30" using ss(5) unfolding bpp wh(1,2) .
  have "unat w * unat ch \<le> unat w * unat ch * unat h" using h0 by (cases "unat h") simp_all
  from this tot have "unat w * unat ch \<le> 2 ^ 30" by (rule le_trans)
  then have rb: "unat w * unat ch < 2 ^ 31" by simp
  have "write_rows surf1 buf (unat w * unat ch) (int (unat h)) =
      Some (surf1\<lparr>pixels := take (unat h * (unat w * unat ch)) buf\<rparr>)"
    by (rule write_rows_copies)
      (use ss(4) bpp wh w0 c0 rb assms(3) in \<open>simp_all add: mult_ac\<close>)
  moreover have "take (unat h * (unat w * unat ch)) buf = buf"
    using assms(3) by (simp add: mult_ac)
  ultimately show ?thesis using wh(3) by simp
qed

lemma qoi_init_facts:
  "length (q_index (qoi_init n)) = 64" "q_dst_pos (qoi_init n) = 0"
  "length (q_pixels (qoi_init n)) = n"
  by (simp_all add: qoi_init_def)

lemma qoi_loop_dst:
  assumes "ch = 3 \<or> ch = 4" "src_end \<le> length data" "k * unat ch \<le> n"
    "qoi_loop data src_end ch k (qoi_init n) = Some (Inr st)"
  shows "q_dst_pos st = k * unat ch" "length (q_pixels st) = n" "length (q_index st) = 64"
proof -
  from qoi_loop_total [OF assms(2,1), of "qoi_init n" k] assms(3,4)
  have "step_ok ch k (qoi_init n) (Inr st)" by (auto simp: qoi_init_facts)
  then show "q_dst_pos st = k * unat ch" "length (q_pixels st) = n" "length (q_index st) = 64"
    by (simp_all add: step_ok_def qoi_init_facts)
qed

text \<open>
  Claim C10. A QOI input has a valid header, dimensions within the limits of the options
  and of the pixel maximum, and the surface accepts the size. If the first \<open>k\<close> pixels
  are decoded without an error and leave the read position at or past the end of the chunk
  stream (the end marker of 8 bytes excluded), then \<open>qoi_decode\<close> returns success, and the
  pixel buffer holds the \<open>k\<close> decoded pixels followed by the last decoded pixel, repeated
  for each of the remaining \<open>width * height - k\<close> pixels.
\<close>

theorem qoi_exhausted_stream_pads:
  fixes w h :: u32 and ch :: byte
  assumes "qoi_header data w h ch"
    and "ok (validate_dimensions (sint w) (sint h) options DEFAULT_MAX_DIMENSION)"
    and "unat w * unat h \<le> MAX_PIXELS"
    and "set_size (sint w) (sint h) (if ch = 4 then rgba8888 else rgb888) resize_ok surf = (True, surf1)"
    and "k \<le> unat w * unat h"
    and "qoi_loop data (length data - QOI_END_MARKER_SIZE) ch k (qoi_init (unat w * unat h * unat ch)) =
           Some (Inr st)"
    and "length data - QOI_END_MARKER_SIZE \<le> q_src_pos st"
  shows "qoi_decode data surf options resize_ok =
     Some (success,
       surf1\<lparr>pixels := take (k * unat ch) (q_pixels st) @
                 concat (replicate (unat w * unat h - k) (px_bytes ch (q_px st)))\<rparr>)"
proof -
  define n where "n = unat w * unat h"
  define m where "m = n - k"
  define src_end where "src_end = length data - QOI_END_MARKER_SIZE"
  from assms(1) have ch: "ch = 3 \<or> ch = 4" by (simp add: qoi_header_def)
  have se: "src_end \<le> length data" by (simp add: src_end_def)
  from assms(5) have km: "n = k + m" by (simp add: m_def n_def)
  then have kn: "k * unat ch \<le> n * unat ch" by simp
  note d = qoi_loop_dst [OF ch se kn assms(6) [folded n_def src_end_def]]
  have "q_dst_pos st + m * unat ch \<le> length (q_pixels st)"
    unfolding d km by (simp add: add_mult_distrib)
  from qoi_loop_exhausted [OF ch assms(7) [folded src_end_def] this, of data] obtain st' where
    st': "qoi_loop data src_end ch m st = Some (Inr st')" "pad_ok ch m st st'" by blast
  have loop: "qoi_loop data src_end ch n (qoi_init (n * unat ch)) = Some (Inr st')"
    unfolding km qoi_loop_add
    using assms(6) [folded n_def src_end_def] st'(1) by (simp add: km)
  from st'(2) have l: "length (q_pixels st') = n * unat ch"
    and t: "take (k * unat ch + m * unat ch) (q_pixels st') =
        take (k * unat ch) (q_pixels st) @ concat (replicate m (px_bytes ch (q_px st)))"
    by (simp_all add: pad_ok_def d)
  have "k * unat ch + m * unat ch = length (q_pixels st')"
    unfolding l km by (simp add: add_mult_distrib)
  with t have px: "q_pixels st' =
      take (k * unat ch) (q_pixels st) @ concat (replicate m (px_bytes ch (q_px st)))"
    by simp
  from qoi_write_rows [OF assms(4) ch l [unfolded n_def]]
  have wr: "write_rows surf1 (q_pixels st') (unat w * unat ch) (sint h) =
      Some (surf1\<lparr>pixels := q_pixels st'\<rparr>)" .
  show ?thesis
    unfolding qoi_decode_header [OF assms(1)] Let_def
    using assms(2,3,4) loop wr
    by (simp add: n_def [symmetric] src_end_def [symmetric] px m_def)
qed

lemma defined_failure [simp]:
  "defined_result (failure truncated_data m)" "defined_result (failure invalid_format m)"
  "defined_result (failure dimensions_exceeded m)" "defined_result (failure internal_error m)"
  "defined_result success"
  by (simp_all add: defined_result_def failure_def)

lemma validate_dimensions_defined: "defined_result (validate_dimensions wd ht options dflt)"
  by (simp add: validate_dimensions_def get_dimension_limits_def Let_def)

lemma qoi_decode_valid_total:
  fixes w h :: u32 and ch :: byte
  assumes "qoi_header data w h ch"
  shows "\<exists>r s'. qoi_decode data surf options a = Some (r, s') \<and> defined_result r"
proof -
  define n where "n = unat w * unat h"
  define src_end where "src_end = length data - QOI_END_MARKER_SIZE"
  from assms have ch: "ch = 3 \<or> ch = 4" by (simp add: qoi_header_def)
  have se: "src_end \<le> length data" by (simp add: src_end_def)
  obtain b surf1 where ss:
    "set_size (sint w) (sint h) (if ch = 4 then rgba8888 else rgb888) a surf = (b, surf1)"
    by (cases "set_size (sint w) (sint h) (if ch = 4 then rgba8888 else rgb888) a surf")
  from qoi_loop_total [OF se ch, of "qoi_init (n * unat ch)" n] obtain r where
    r: "qoi_loop data src_end ch n (qoi_init (n * unat ch)) = Some r"
      "step_ok ch n (qoi_init (n * unat ch)) r"
    by (auto simp: qoi_init_facts)
  show ?thesis
  proof (cases "\<not> ok (validate_dimensions (sint w) (sint h) options DEFAULT_MAX_DIMENSION) \<or>
      n > MAX_PIXELS \<or> \<not> b")
    case True
    then show ?thesis
      unfolding qoi_decode_header [OF assms] Let_def n_def [symmetric] ss
      using validate_dimensions_defined [of "sint w" "sint h" options DEFAULT_MAX_DIMENSION]
      by auto
  next
    case False
    then have b: "b" by simp
    show ?thesis
    proof (cases r)
      case (Inl e)
      with r(2) have "defined_result e" by (simp add: step_ok_def defined_result_def)
      with False Inl r(1) b show ?thesis
        unfolding qoi_decode_header [OF assms] Let_def n_def [symmetric] src_end_def [symmetric] ss
        by simp
    next
      case (Inr st)
      with r(2) have "length (q_pixels st) = unat w * unat h * unat ch"
        by (simp add: step_ok_def qoi_init_facts n_def)
      from qoi_write_rows [OF ss [unfolded b [THEN eqTrueI]] ch this]
      have "write_rows surf1 (q_pixels st) (unat w * unat ch) (sint h) =
          Some (surf1\<lparr>pixels := q_pixels st\<rparr>)" .
      with False Inr r(1) b show ?thesis
        unfolding qoi_decode_header [OF assms] Let_def n_def [symmetric] src_end_def [symmetric] ss
        by simp
    qed
  qed
qed

lemma qoi_decode_total:
  "\<exists>r s'. qoi_decode data surf options a = Some (r, s') \<and> defined_result r"
proof (cases "length data < QOI_HEADER_SIZE + QOI_END_MARKER_SIZE")
  case True
  then show ?thesis by (simp add: qoi_decode_def)
next
  case False
  then have l: "22 \<le> length data" by (simp add: QOI_HEADER_SIZE_def QOI_END_MARKER_SIZE_def)
  then obtain magic w h where r: "read_be32 data 0 = Some magic" "read_be32 data 4 = Some w"
    "read_be32 data 8 = Some h"
    using read_be32_total [of 0 data] read_be32_total [of 4 data] read_be32_total [of 8 data]
    by auto
  from l have c: "rd data 12 = Some (data ! 12)" by simp
  show ?thesis
  proof (cases "magic = QOI_MAGIC \<and> w \<noteq> 0 \<and> h \<noteq> 0 \<and> (data ! 12 = 3 \<or> data ! 12 = 4)")
    case True
    with False r c have "qoi_header data w h (data ! 12)" by (simp add: qoi_header_def)
    then show ?thesis by (rule qoi_decode_valid_total)
  next
    case bad: False
    with False show ?thesis
      unfolding qoi_decode_def by (auto simp: r c)
  qed
qed

lemma qoi_sample_header: "qoi_header (take 26 qoi_sample) 2 1 3"
  by (simp add: qoi_header_def qoi_sample_def QOI_HEADER_SIZE_def QOI_END_MARKER_SIZE_def
      read_be32_def rd_def QOI_MAGIC_def)

lemma qoi_sample_header_full: "qoi_header qoi_sample 2 1 3"
  by (simp add: qoi_header_def qoi_sample_def QOI_HEADER_SIZE_def QOI_END_MARKER_SIZE_def
      read_be32_def rd_def QOI_MAGIC_def)

lemma qoi_sample_set_size:
  "set_size 2 1 rgb888 True empty_surface = (True, qoi_sample_image\<lparr>pixels := replicate 6 0\<rparr>)"
  by (simp add: set_size_def empty_surface_def qoi_sample_image_def Let_def SIZE_MAX_def
      MAX_BUFFER_SIZE_def)

lemma replicate_6: "replicate 6 x = [x, x, x, x, x, x]"
  by (simp add: numeral_eq_Suc)

lemma qoi_sample_first:
  "qoi_step (take 26 qoi_sample) 18 3 (qoi_init 6) = Some (Inr qoi_sample_state)"
  by (simp add: qoi_step_def qoi_chunk_def qoi_emit_def qoi_init_def qoi_sample_def
      QOI_HEADER_SIZE_def rd_def wr_def Let_def QOI_OP_RGB_def qoi_color_hash_def
      qoi_sample_state_def replicate_6)

lemma qoi_sample_second:
  "qoi_step (take 26 qoi_sample) 18 3 qoi_sample_state =
     Some (Inr (qoi_sample_state\<lparr>q_dst_pos := 6, q_pixels := [10, 20, 30, 10, 20, 30]\<rparr>))"
  by (simp add: qoi_step_def qoi_emit_def qoi_sample_state_def wr_def Let_def)

lemma qoi_sample_loop:
  "qoi_loop (take 26 qoi_sample) 18 3 2 (qoi_init 6) =
     Some (Inr (qoi_sample_state\<lparr>q_dst_pos := 6, q_pixels := [10, 20, 30, 10, 20, 30]\<rparr>))"
proof -
  have "qoi_loop (take 26 qoi_sample) 18 3 (Suc (Suc 0)) (qoi_init 6) =
     Some (Inr (qoi_sample_state\<lparr>q_dst_pos := 6, q_pixels := [10, 20, 30, 10, 20, 30]\<rparr>))"
    by (simp add: qoi_sample_first qoi_sample_second)
  then show ?thesis by (simp only: numeral_2_eq_2)
qed

lemma qoi_sample_truncated_decodes:
  "qoi_decode (take 26 qoi_sample) empty_surface default_options True =
     Some (success, qoi_sample_image)"
proof -
  have v: "ok (validate_dimensions (sint (2 :: u32)) (sint (1 :: u32)) default_options
      DEFAULT_MAX_DIMENSION)"
    by (simp add: validate_dimensions_def get_dimension_limits_def default_options_def
        success_def Let_def)
  have s: "set_size (sint (2 :: u32)) (sint (1 :: u32)) (if (3 :: byte) = 4 then rgba8888 else rgb888)
      True empty_surface = (True, qoi_sample_image\<lparr>pixels := replicate 6 0\<rparr>)"
    by (simp add: qoi_sample_set_size)
  have l: "length [10, 20, 30, 10, 20, 30 :: byte] = unat (2 :: u32) * unat (1 :: u32) * unat (3 :: byte)"
    by simp
  have c: "(3 :: byte) = 3 \<or> (3 :: byte) = 4" by simp
  have e: "length (take 26 qoi_sample) - QOI_END_MARKER_SIZE = 18"
    by (simp add: qoi_sample_def QOI_END_MARKER_SIZE_def)
  show ?thesis
    unfolding qoi_decode_header [OF qoi_sample_header] Let_def e
    using v s qoi_sample_loop qoi_write_rows [OF s c l]
    by (simp add: MAX_PIXELS_def qoi_sample_image_def)
qed

lemma qoi_sample_third:
  "qoi_step qoi_sample 19 3 qoi_sample_state =
     Some (Inr (qoi_sample_state\<lparr>q_src_pos := 19, q_dst_pos := 6,
        q_pixels := [10, 20, 30, 10, 20, 30]\<rparr>))"
  by (simp add: qoi_step_def qoi_chunk_def qoi_emit_def qoi_sample_state_def wr_def rd_def Let_def
      qoi_sample_def QOI_OP_RGB_def QOI_OP_RGBA_def QOI_MASK_2_def QOI_OP_INDEX_def QOI_OP_DIFF_def
      QOI_OP_LUMA_def QOI_OP_RUN_def qoi_color_hash_def)

lemma qoi_sample_first_full:
  "qoi_step qoi_sample 19 3 (qoi_init 6) = Some (Inr qoi_sample_state)"
  by (simp add: qoi_step_def qoi_chunk_def qoi_emit_def qoi_init_def qoi_sample_def
      QOI_HEADER_SIZE_def rd_def wr_def Let_def QOI_OP_RGB_def qoi_color_hash_def
      qoi_sample_state_def replicate_6)

lemma qoi_sample_loop_full:
  "qoi_loop qoi_sample 19 3 2 (qoi_init 6) =
     Some (Inr (qoi_sample_state\<lparr>q_src_pos := 19, q_dst_pos := 6,
        q_pixels := [10, 20, 30, 10, 20, 30]\<rparr>))"
proof -
  have "qoi_loop qoi_sample 19 3 (Suc (Suc 0)) (qoi_init 6) =
     Some (Inr (qoi_sample_state\<lparr>q_src_pos := 19, q_dst_pos := 6,
        q_pixels := [10, 20, 30, 10, 20, 30]\<rparr>))"
    by (simp add: qoi_sample_first_full qoi_sample_third)
  then show ?thesis by (simp only: numeral_2_eq_2)
qed

lemma qoi_sample_decodes:
  "qoi_decode qoi_sample empty_surface default_options True = Some (success, qoi_sample_image)"
proof -
  have v: "ok (validate_dimensions (sint (2 :: u32)) (sint (1 :: u32)) default_options
      DEFAULT_MAX_DIMENSION)"
    by (simp add: validate_dimensions_def get_dimension_limits_def default_options_def
        success_def Let_def)
  have s: "set_size (sint (2 :: u32)) (sint (1 :: u32)) (if (3 :: byte) = 4 then rgba8888 else rgb888)
      True empty_surface = (True, qoi_sample_image\<lparr>pixels := replicate 6 0\<rparr>)"
    by (simp add: qoi_sample_set_size)
  have l: "length [10, 20, 30, 10, 20, 30 :: byte] = unat (2 :: u32) * unat (1 :: u32) * unat (3 :: byte)"
    by simp
  have c: "(3 :: byte) = 3 \<or> (3 :: byte) = 4" by simp
  have e: "length qoi_sample - QOI_END_MARKER_SIZE = 19"
    by (simp add: qoi_sample_def QOI_END_MARKER_SIZE_def)
  show ?thesis
    unfolding qoi_decode_header [OF qoi_sample_header_full] Let_def e
    using v s qoi_sample_loop_full qoi_write_rows [OF s c l]
    by (simp add: MAX_PIXELS_def qoi_sample_image_def)
qed

lemma replicate_8: "replicate 8 x = [x, x, x, x, x, x, x, x]"
  by (simp add: numeral_eq_Suc)

lemma qoi_short_header: "qoi_header qoi_short 1 2 4"
  by (simp add: qoi_header_def qoi_short_def QOI_HEADER_SIZE_def QOI_END_MARKER_SIZE_def
      read_be32_def rd_def QOI_MAGIC_def)

lemma qoi_short_first:
  "qoi_step qoi_short 19 4 (qoi_init 8) = Some (Inr qoi_short_state)"
  by (simp add: qoi_step_def qoi_chunk_def qoi_emit_def qoi_init_def qoi_short_def
      QOI_HEADER_SIZE_def rd_def wr_def Let_def QOI_OP_RGB_def QOI_OP_RGBA_def qoi_color_hash_def
      qoi_short_state_def replicate_8)

lemma qoi_short_loop:
  "qoi_loop qoi_short (length qoi_short - QOI_END_MARKER_SIZE) 4 1
     (qoi_init (unat (1 :: u32) * unat (2 :: u32) * unat (4 :: byte))) = Some (Inr qoi_short_state)"
proof -
  have "length qoi_short - QOI_END_MARKER_SIZE = 19"
    by (simp add: qoi_short_def QOI_END_MARKER_SIZE_def)
  moreover have "unat (1 :: u32) * unat (2 :: u32) * unat (4 :: byte) = 8" by simp
  moreover have "qoi_loop qoi_short 19 4 (Suc 0) (qoi_init 8) = Some (Inr qoi_short_state)"
    by (simp add: qoi_short_first)
  ultimately show ?thesis by simp
qed

lemma qoi_short_set_size:
  "set_size (sint (1 :: u32)) (sint (2 :: u32)) (if (4 :: byte) = 4 then rgba8888 else rgb888)
     True empty_surface =
   (True, \<lparr>pixels = replicate 8 0, palette = [], subrects = [],
      width = 1, height = 2, pitch = 4, format = rgba8888\<rparr>)"
  by (simp add: set_size_def empty_surface_def Let_def SIZE_MAX_def MAX_BUFFER_SIZE_def)

text \<open>
  The file \<open>qoi_short\<close> declares two pixels and holds one chunk: the second pixel repeats
  the first.
\<close>

theorem qoi_exhausted_stream_pads_witness:
  "qoi_header qoi_short 1 2 4 \<and>
   ok (validate_dimensions (sint (1 :: u32)) (sint (2 :: u32)) default_options DEFAULT_MAX_DIMENSION) \<and>
   1 \<le> unat (1 :: u32) * unat (2 :: u32) \<and>
   length qoi_short - QOI_END_MARKER_SIZE \<le> q_src_pos qoi_short_state \<and>
   qoi_decode qoi_short empty_surface default_options True =
     Some (success, \<lparr>pixels = [1, 2, 3, 4, 1, 2, 3, 4], palette = [], subrects = [],
        width = 1, height = 2, pitch = 4, format = rgba8888\<rparr>)"
proof -
  have v: "ok (validate_dimensions (sint (1 :: u32)) (sint (2 :: u32)) default_options
      DEFAULT_MAX_DIMENSION)"
    by (simp add: validate_dimensions_def get_dimension_limits_def default_options_def
        success_def Let_def)
  have m: "unat (1 :: u32) * unat (2 :: u32) \<le> MAX_PIXELS" by (simp add: MAX_PIXELS_def)
  have k: "1 \<le> unat (1 :: u32) * unat (2 :: u32)" by simp
  have e: "length qoi_short - QOI_END_MARKER_SIZE \<le> q_src_pos qoi_short_state"
    by (simp add: qoi_short_def QOI_END_MARKER_SIZE_def qoi_short_state_def)
  from qoi_exhausted_stream_pads [OF qoi_short_header v m qoi_short_set_size k qoi_short_loop e]
  have "qoi_decode qoi_short empty_surface default_options True =
     Some (success, \<lparr>pixels = [1, 2, 3, 4, 1, 2, 3, 4], palette = [], subrects = [],
        width = 1, height = 2, pitch = 4, format = rgba8888\<rparr>)"
    by (simp add: qoi_short_state_def px_bytes_def)
  with qoi_short_header v k e show ?thesis by simp
qed



section \<open>Every input gets a result\<close>

lemma koala_image_total:
  assumes "b + 8000 \<le> length src" "s + 1000 \<le> length src" "c + 1000 \<le> length src"
    "bg < length src"
  shows "\<exists>r t. koala_decode_image data decompressed src (b, s, c, bg) surf options a = Some (r, t) \<and>
    defined_result r"
proof -
  obtain ok1 surf1 where ss: "set_size MULTICOLOR_WIDTH MULTICOLOR_HEIGHT rgb888 a surf = (ok1, surf1)"
    by (cases "set_size MULTICOLOR_WIDTH MULTICOLOR_HEIGHT rgb888 a surf")
  from decode_multicolor_total [OF assms(1-3), of "src ! bg" surf1] obtain t where
    t: "decode_multicolor src b s c (src ! bg) surf1 = Some t" by blast
  from assms(4) have r: "rd src bg = Some (src ! bg)" by simp
  show ?thesis
    unfolding koala_decode_image_def Let_def prod.case ss r
    by (cases ok1) (simp_all add: t)
qed

lemma koala_decode_total:
  "\<exists>r t. koala_decode data surf options a = Some (r, t) \<and> defined_result r"
proof (cases "data = []")
  case True
  then show ?thesis by (simp add: koala_decode_def)
next
  case ne: False
  show ?thesis
  proof (cases "is_gg_koala data")
    case True
    from decompress_gg_total [of data 2 KOALA_SIZE_WITHOUT_ADDR] obtain res p where
      d: "decompress_gg data 2 [] KOALA_SIZE_WITHOUT_ADDR = Some (res, p)"
      and l: "res \<longrightarrow> length p = KOALA_SIZE_WITHOUT_ADDR" by blast
    show ?thesis
    proof (cases res)
      case False
      with ne True d show ?thesis by (simp add: koala_decode_def)
    next
      case r: True
      with l have lp: "length p = 10001" by (simp add: KOALA_SIZE_WITHOUT_ADDR_def)
      have "\<exists>r t. koala_decode_image data p p (0, BITMAP_SIZE, BITMAP_SIZE + SCREEN_RAM_SIZE,
          BITMAP_SIZE + SCREEN_RAM_SIZE + COLOR_RAM_SIZE) surf options a = Some (r, t) \<and>
          defined_result r"
        by (rule koala_image_total)
          (simp_all add: lp BITMAP_SIZE_def SCREEN_RAM_SIZE_def COLOR_RAM_SIZE_def)
      with d r show ?thesis unfolding koala_decode_gg [OF True d [unfolded r [THEN eqTrueI]]] by simp
    qed
  next
    case False
    show ?thesis
    proof (cases "koala_offsets (length data)")
      case None
      with ne False show ?thesis by (simp add: koala_decode_def)
    next
      case (Some offs)
      obtain b s c bg where o: "offs = (b, s, c, bg)" by (cases offs)
      from Some have "b + 8000 \<le> length data \<and> s + 1000 \<le> length data \<and>
          c + 1000 \<le> length data \<and> bg < length data"
        unfolding o koala_offsets_def KOALA_SIZE_WITHOUT_ADDR_def KOALA_SIZE_WITH_ADDR_def
          KOALA_SIZE_OCP_def BITMAP_SIZE_def SCREEN_RAM_SIZE_def COLOR_RAM_SIZE_def Let_def
        by (auto split: if_splits)
      then have "\<exists>r t. koala_decode_image data [] data (b, s, c, bg) surf options a = Some (r, t) \<and>
          defined_result r"
        by (intro koala_image_total) simp_all
      then show ?thesis unfolding koala_decode_plain [OF Some] o .
    qed
  qed
qed

lemma get_c64_multicolor_total:
  fixes x y :: nat
  assumes "x < 320" "y < 200" "- 1 \<le> ls" "ls \<le> 0"
    "b + 8000 \<le> length content" "v + 1000 \<le> length content" "c + 1000 \<le> length content"
  shows "\<exists>ci. get_c64_multicolor content b v c bg (int x) (int y) ls = Some ci"
proof (cases "int x + ls < 0")
  case True
  then show ?thesis by (simp add: get_c64_multicolor_def)
next
  case False
  define xx where "xx = nat (int x + ls)"
  from False have xi: "int x + ls = int xx" by (simp add: xx_def)
  from assms(1,4) have xl: "xx < 320" by (simp add: xx_def)
  have "(int y div 8) * 40 + (int xx div 8) = int (y div 8 * 40 + xx div 8)"
    by (simp add: of_nat_div)
  then have co: "nat ((int y div 8) * 40 + (int xx div 8)) = y div 8 * 40 + xx div 8"
    by (simp only: nat_int)
  have "int y mod 8 = int (y mod 8)" by (simp add: of_nat_mod)
  then have ro: "nat (int y mod 8) = y mod 8" by (simp only: nat_int)
  note lt = cell_offset_lt [OF xl assms(2)]
  from lt(1) assms(5) have r1: "rd content (b + (y div 8 * 40 + xx div 8) * 8 + y mod 8) =
      Some (content ! (b + (y div 8 * 40 + xx div 8) * 8 + y mod 8))"
    by (intro rd_Some) simp
  from lt(2) assms(6) have r2: "rd content (v + (y div 8 * 40 + xx div 8)) =
      Some (content ! (v + (y div 8 * 40 + xx div 8)))"
    by (intro rd_Some) simp
  from lt(2) assms(7) have r3: "rd content (c + (y div 8 * 40 + xx div 8)) =
      Some (content ! (c + (y div 8 * 40 + xx div 8)))"
    by (intro rd_Some) simp
  from False show ?thesis
    unfolding get_c64_multicolor_def Let_def xi co ro r1 r2 r3
    by simp
qed

lemma palette_total: "\<exists>rgb. rd PALETTE (unat (ci AND (0x0f :: byte))) = Some rgb"
  using nibble_lt [of ci] by (simp add: PALETTE_def)

lemma frame_total:
  assumes "- 1 \<le> ls" "ls \<le> 0"
    "b + 8000 \<le> length content" "v + 1000 \<le> length content" "c + 1000 \<le> length content"
    "length px = 64000"
  shows "\<exists>px'. decode_c64_multicolor_frame content b v c bg ls px = Some px' \<and> length px' = 64000"
  unfolding decode_c64_multicolor_frame_def MULTICOLOR_WIDTH_def MULTICOLOR_HEIGHT_def
proof (rule for_loop_total [where P = "\<lambda>p. length p = 64000"])
  show "length px = 64000" by (rule assms(6))
  fix y p assume y: "y \<in> set [0..<nat 200]" and p: "length (p :: u32 list) = 64000"
  show "\<exists>p'. for_loop [0..<nat 320]
      (\<lambda>x px. case get_c64_multicolor content b v c bg (int x) (int y) ls of None \<Rightarrow> None
         | Some color_index \<Rightarrow>
             (case rd PALETTE (unat (color_index AND 0x0f)) of None \<Rightarrow> None
              | Some rgb \<Rightarrow> wr px (nat (int y * 320 + int x)) rgb)) p = Some p' \<and>
      length p' = 64000"
  proof (rule for_loop_total [where P = "\<lambda>p. length p = 64000"])
    show "length p = 64000" by (rule p)
    fix x q assume x: "x \<in> set [0..<nat 320]" and q: "length (q :: u32 list) = 64000"
    from x y have xl: "x < 320" and yl: "y < 200" by simp_all
    from get_c64_multicolor_total [OF xl yl assms(1-5)] obtain ci where
      ci: "get_c64_multicolor content b v c bg (int x) (int y) ls = Some ci" by blast
    from palette_total [of ci] obtain rgb where
      rgb: "rd PALETTE (unat (ci AND 0x0f)) = Some rgb" by blast
    from yl have "y * 320 \<le> 199 * 320" by simp
    with xl have "y * 320 + x < 64000" by simp
    moreover have "nat (int y * 320 + int x) = y * 320 + x" by (simp add: nat_add_distrib nat_mult_distrib)
    ultimately have "nat (int y * 320 + int x) < length q" using q by simp
    then show "\<exists>s'. (case get_c64_multicolor content b v c bg (int x) (int y) ls of None \<Rightarrow> None
         | Some color_index \<Rightarrow>
             (case rd PALETTE (unat (color_index AND 0x0f)) of None \<Rightarrow> None
              | Some rgb \<Rightarrow> wr q (nat (int y * 320 + int x)) rgb)) = Some s' \<and> length s' = 64000"
      unfolding ci rgb option.case using q by simp
  qed
qed

lemma apply_blend_total:
  assumes "length f1 = 64000" "length f2 = 64000"
  shows "\<exists>t. apply_blend f1 f2 surf = Some t"
proof -
  have "\<exists>t. for_loop [0..<nat 200]
       (\<lambda>y. for_loop [0..<nat 320]
          (\<lambda>x s. case rd f1 (nat (int y * 320 + int x)) of None \<Rightarrow> None
             | Some p1 \<Rightarrow>
                 (case rd f2 (nat (int y * 320 + int x)) of None \<Rightarrow> None
                  | Some p2 \<Rightarrow> write_rgb_pixel s (int x) (int y) (blend_rgb p1 p2))))
       surf = Some t \<and> True"
  proof (rule for_loop_total [where P = "\<lambda>s. True"])
    fix y s assume y: "y \<in> set [0..<nat 200]"
    show "\<exists>s'. for_loop [0..<nat 320]
          (\<lambda>x s. case rd f1 (nat (int y * 320 + int x)) of None \<Rightarrow> None
             | Some p1 \<Rightarrow>
                 (case rd f2 (nat (int y * 320 + int x)) of None \<Rightarrow> None
                  | Some p2 \<Rightarrow> write_rgb_pixel s (int x) (int y) (blend_rgb p1 p2))) s = Some s' \<and> True"
    proof (rule for_loop_total [where P = "\<lambda>s. True"])
      fix x t assume x: "x \<in> set [0..<nat 320]"
      from x y have xl: "x < 320" and yl: "y < 200" by simp_all
      from yl have "y * 320 \<le> 199 * 320" by simp
      with xl have "y * 320 + x < 64000" by simp
      moreover have "nat (int y * 320 + int x) = y * 320 + x"
        by (simp add: nat_add_distrib nat_mult_distrib)
      ultimately have i: "nat (int y * 320 + int x) < 64000" by simp
      from i assms have r: "rd f1 (nat (int y * 320 + int x)) = Some (f1 ! nat (int y * 320 + int x))"
        "rd f2 (nat (int y * 320 + int x)) = Some (f2 ! nat (int y * 320 + int x))"
        by simp_all
      from write_rgb_pixel_total show "\<exists>s'. (case rd f1 (nat (int y * 320 + int x)) of None \<Rightarrow> None
             | Some p1 \<Rightarrow>
                 (case rd f2 (nat (int y * 320 + int x)) of None \<Rightarrow> None
                  | Some p2 \<Rightarrow> write_rgb_pixel t (int x) (int y) (blend_rgb p1 p2))) = Some s' \<and> True"
        unfolding r option.case by simp
    qed simp
  qed simp
  then show ?thesis
    unfolding apply_blend_def Let_def MULTICOLOR_WIDTH_def MULTICOLOR_HEIGHT_def by simp
qed

lemma drazlace_image_total:
  assumes "length src = DRAZLACE_UNPACKED_SIZE"
  shows "\<exists>r t. drazlace_decode_image src surf options a = Some (r, t) \<and> defined_result r"
proof -
  from assms have len: "length src = 18242" by (simp add: DRAZLACE_UNPACKED_SIZE_def)
  define sb where "sb = src ! SHIFT_OFFSET"
  from len have r1: "rd src SHIFT_OFFSET = Some sb"
    by (simp add: SHIFT_OFFSET_def sb_def)
  from len have r2: "rd src BACKGROUND_OFFSET = Some (src ! BACKGROUND_OFFSET)"
    by (simp add: BACKGROUND_OFFSET_def)
  obtain ok1 surf1 where ss: "set_size MULTICOLOR_WIDTH MULTICOLOR_HEIGHT rgb888 a surf = (ok1, surf1)"
    by (cases "set_size MULTICOLOR_WIDTH MULTICOLOR_HEIGHT rgb888 a surf")
  define blank where "blank = replicate (nat (MULTICOLOR_WIDTH * MULTICOLOR_HEIGHT)) (0 :: u32)"
  have bl: "length blank = 64000"
    by (simp add: blank_def MULTICOLOR_WIDTH_def MULTICOLOR_HEIGHT_def)
  show ?thesis
  proof (cases "uint sb > 1")
    case True
    then show ?thesis unfolding drazlace_decode_image_def r1 Let_def by simp
  next
    case False
    then have sh: "- 1 \<le> - uint sb" "- uint sb \<le> 0" by simp_all
    have z: "- 1 \<le> (0 :: int)" "(0 :: int) \<le> 0" by simp_all
    have o1: "BITMAP1_OFFSET + 8000 \<le> length src" "BITMAP2_OFFSET + 8000 \<le> length src"
      "VIDEO_MATRIX_OFFSET + 1000 \<le> length src" "COLOR_OFFSET + 1000 \<le> length src"
      by (simp_all add: len BITMAP1_OFFSET_def BITMAP2_OFFSET_def VIDEO_MATRIX_OFFSET_def
          COLOR_OFFSET_def)
    from frame_total [OF z o1(1) o1(3) o1(4) bl, of "src ! BACKGROUND_OFFSET"] obtain f1 where
      f1: "decode_c64_multicolor_frame src BITMAP1_OFFSET VIDEO_MATRIX_OFFSET COLOR_OFFSET
         (src ! BACKGROUND_OFFSET) 0 blank = Some f1" "length f1 = 64000" by blast
    from frame_total [OF sh o1(2) o1(3) o1(4) bl, of "src ! BACKGROUND_OFFSET"] obtain f2 where
      f2: "decode_c64_multicolor_frame src BITMAP2_OFFSET VIDEO_MATRIX_OFFSET COLOR_OFFSET
         (src ! BACKGROUND_OFFSET) (- uint sb) blank = Some f2" "length f2 = 64000" by blast
    from apply_blend_total [OF f1(2) f2(2), of surf1] obtain t where
      t: "apply_blend f1 f2 surf1 = Some t" by blast
    from False show ?thesis
      unfolding drazlace_decode_image_def r1 r2 Let_def ss blank_def [symmetric] option.case
      by (cases ok1) (simp_all add: f1 f2 t)
  qed
qed

lemma drazlace_decode_total:
  "\<exists>r t. drazlace_decode data surf options a = Some (r, t) \<and> defined_result r"
proof (cases "data = []")
  case True
  then show ?thesis by (simp add: drazlace_decode_def)
next
  case ne: False
  show ?thesis
  proof (cases "has_drazlace_signature data")
    case True
    have "2 \<le> DRAZLACE_UNPACKED_SIZE" by (simp add: DRAZLACE_UNPACKED_SIZE_def)
    from decompress_drp_total [OF this, of data] obtain res p where
      d: "decompress_drp data [] DRAZLACE_UNPACKED_SIZE = Some (res, p)"
      and l: "res \<longrightarrow> length p = DRAZLACE_UNPACKED_SIZE" by blast
    show ?thesis
    proof (cases res)
      case False
      with ne True d show ?thesis by (simp add: drazlace_decode_def)
    next
      case r: True
      with l have "length p = DRAZLACE_UNPACKED_SIZE" by simp
      from drazlace_image_total [OF this, of surf options a] ne True d r show ?thesis
        by (simp add: drazlace_decode_def)
    qed
  next
    case False
    show ?thesis
    proof (cases "length data = DRAZLACE_UNPACKED_SIZE")
      case True
      from drazlace_image_total [OF this, of surf options a] ne False True show ?thesis
        by (simp add: drazlace_decode_def)
    next
      case nl: False
      with ne False show ?thesis by (simp add: drazlace_decode_def)
    qed
  qed
qed

subsection \<open>A packed DrazLace file\<close>







subsection \<open>The decoders under a positive limit\<close>




section \<open>The PNG encoder\<close>

lemma for_loop_first_fails:
  assumes "0 < n" "body 0 s = None"
  shows "for_loop [0..<n] body s = None"
proof -
  from assms(1) have "[0..<n] = 0 # [Suc 0..<n]" by (rule upt_conv_Cons)
  then show ?thesis by (simp only: for_loop.simps assms(2) option.case)
qed

lemma set_size_1gib:
  "set_size 32768 32768 indexed8 True empty_surface =
     (True, \<lparr>pixels = replicate 1073741824 0, palette = [], subrects = [],
        width = 32768, height = 32768, pitch = 32768, format = indexed8\<rparr>)"
  by (simp add: set_size_def empty_surface_def Let_def SIZE_MAX_def MAX_BUFFER_SIZE_def)

text \<open>
  Claim C9. \<open>set_size\<close> accepts an indexed surface of 32768 by 32768 pixels (exactly
  1 GiB). For it \<open>w * h * 4\<close> is \<open>2 ^ 32\<close>, which is 0 in 32-bit unsigned arithmetic:
  the RGBA buffer gets the size 0, the conversion loop still runs over \<open>w * h\<close> pixels,
  and its first store \<open>dst[0]\<close> is outside the buffer. No RGBA buffer is built and no
  empty vector is returned.
\<close>

theorem encode_png_overflow_at_1gib:
  "fst (set_size 32768 32768 indexed8 True empty_surface) \<and>
   encode_png lodepng_encode (snd (set_size 32768 32768 indexed8 True empty_surface)) = None"
proof -
  define big where "big = \<lparr>pixels = replicate 1073741824 (0 :: byte), palette = [], subrects = [],
        width = 32768, height = 32768, pitch = 32768, format = indexed8\<rparr>"
  have w: "(word_of_int 32768 :: u32) * word_of_int 32768 * 4 = 0"
    "unat ((word_of_int 32768 :: u32) * word_of_int 32768) = 1073741824"
    by simp_all
  have "indexed_to_rgba_pixel (replicate 1073741824 0) [] 0 [] = None"
    by (simp add: indexed_to_rgba_pixel_def rd_def wr_def)
  then have "for_loop [0..<1073741824] (indexed_to_rgba_pixel (replicate 1073741824 0) []) [] = None"
    by (intro for_loop_first_fails) simp_all
  then have "to_rgba big = None"
    unfolding to_rgba_def big_def Let_def by (simp add: w)
  then have "encode_png lodepng_encode big = None"
    by (simp add: encode_png_def big_def)
  then show ?thesis by (simp add: set_size_1gib big_def)
qed

section \<open>The ICO atlas\<close>

lemma size_of_int_nat [simp]: "0 \<le> i \<Longrightarrow> size_of_int i = nat i"
  by (simp add: size_of_int_def)






lemma bytes_per_pixel_bounds: "0 < bytes_per_pixel fmt" "bytes_per_pixel fmt \<le> 4"
  by (cases fmt; simp)+

lemma set_size_ok:
  assumes "0 < wd" "0 < ht" "nat wd * bytes_per_pixel fmt * nat ht \<le> 2 ^ 30"
  shows "set_size wd ht fmt True s =
     (True, \<lparr>pixels = replicate (nat wd * bytes_per_pixel fmt * nat ht) 0, palette = [],
        subrects = [], width = wd, height = ht, pitch = nat wd * bytes_per_pixel fmt,
        format = fmt\<rparr>)"
proof -
  define w h bpp where "w = nat wd" and "h = nat ht" and "bpp = bytes_per_pixel fmt"
  from assms(1,2) have wh: "0 < w" "0 < h" by (simp_all add: w_def h_def)
  have b: "0 < bpp" unfolding bpp_def by (rule bytes_per_pixel_bounds)
  from assms(3) have t: "w * bpp * h \<le> 2 ^ 30" by (simp add: w_def h_def bpp_def)
  have m: "(2 :: nat) ^ 30 \<le> SIZE_MAX" by (simp add: SIZE_MAX_def)
  have "w * bpp = w * bpp * 1" by simp
  also have "\<dots> \<le> w * bpp * h" using wh(2) by (intro mult_le_mono2) simp
  also note t
  also note m
  finally have "w * bpp \<le> SIZE_MAX" .
  then have "w \<le> SIZE_MAX div bpp" using b by (simp only: less_eq_div_iff_mult_less_eq)
  then have c1: "\<not> w > SIZE_MAX div bpp" by (simp only: not_less)
  from t m have "w * bpp * h \<le> SIZE_MAX" by simp
  then have "w * bpp \<le> SIZE_MAX div h" using wh(2) by (simp only: less_eq_div_iff_mult_less_eq)
  then have c2: "\<not> w * bpp > SIZE_MAX div h" by (simp only: not_less)
  from t have c3: "\<not> w * bpp * h > MAX_BUFFER_SIZE" by (simp add: MAX_BUFFER_SIZE_def)
  from assms(1,2) c1 c2 c3 show ?thesis
    unfolding set_size_def Let_def w_def [symmetric] h_def [symmetric] bpp_def [symmetric]
    by simp
qed
















lemma wr_length: "wr xs i v = Some ys \<Longrightarrow> length ys = length xs"
  by (auto simp: wr_def split: if_splits)


















lemma not_ok_failure [simp]: "\<not> ok (failure e m)"
  by (simp add: failure_def)











subsection \<open>A file with 65 sub-images\<close>


















subsection \<open>The layout of the atlas\<close>






section \<open>Tiny Stuff in high resolution\<close>

lemma for_loop_append:
  "for_loop (xs @ ys) body s =
     (case for_loop xs body s of None \<Rightarrow> None | Some s' \<Rightarrow> for_loop ys body s')"
  by (induction xs arbitrary: s) (simp_all split: option.splits)

lemma read_be16_Some:
  "p + 1 < length src \<Longrightarrow> \<exists>w. read_be16 src p = Some w"
  by (simp add: read_be16_def)

lemma read_be16_None: "length src \<le> p \<Longrightarrow> read_be16 src p = None"
  by (simp add: read_be16_def)

text \<open>One pixel of \<open>decode_st_bitplanes\<close> with one bit plane.\<close>

lemma st_pixel_one_plane:
  assumes "row + (x div 16) * 1 * 2 + 1 < length src" "i < length d"
  shows "\<exists>d'. (let row = row; group = x div 16; bit_pos = 15 - x mod 16;
                 base = group * nat 1 * 2
             in
             case for_loop [0..<nat 1]
                    (\<lambda>plane pixel.
                       map_option
                         (\<lambda>word. if word AND push_bit bit_pos 1 \<noteq> 0
                                  then pixel OR push_bit plane 1 else pixel)
                         (read_be16 src (row + base + plane * 2)))
                    (0 :: byte)
             of None \<Rightarrow> None
             | Some pixel \<Rightarrow> wr d i pixel) = Some d' \<and> length d' = length d"
proof -
  from assms(1) obtain w where w: "read_be16 src (row + x div 16 * 2) = Some w"
    using read_be16_Some [of "row + x div 16 * 2" src] by auto
  have u: "[0..<nat 1] = [0]" by simp
  show ?thesis
    unfolding Let_def u using assms(2) by (simp add: w)
qed


lemma st_high_rows_ok:
  assumes "length src = 32000" "length d = 256000"
  shows "\<exists>d'. for_loop [0..<200]
       (\<lambda>y. for_loop [0..<nat 640]
          (\<lambda>x d.
             let row = y * 160;
                 group = x div 16;
                 bit_pos = 15 - x mod 16;
                 base = group * nat 1 * 2
             in
             case for_loop [0..<nat 1]
                    (\<lambda>plane pixel.
                       map_option
                         (\<lambda>word. if word AND push_bit bit_pos 1 \<noteq> 0
                                  then pixel OR push_bit plane 1 else pixel)
                         (read_be16 src (row + base + plane * 2)))
                    (0 :: byte)
             of None \<Rightarrow> None
             | Some pixel \<Rightarrow> wr d (y * nat 640 + x) pixel))
       d = Some d' \<and> length d' = 256000"
proof (rule for_loop_total [where P = "\<lambda>d. length d = 256000"])
  show "length d = 256000" by (rule assms(2))
next
  fix y e assume y: "y \<in> set [0..<200]" and e: "length (e :: byte list) = 256000"
  show "\<exists>e'. for_loop [0..<nat 640]
          (\<lambda>x d.
             let row = y * 160;
                 group = x div 16;
                 bit_pos = 15 - x mod 16;
                 base = group * nat 1 * 2
             in
             case for_loop [0..<nat 1]
                    (\<lambda>plane pixel.
                       map_option
                         (\<lambda>word. if word AND push_bit bit_pos 1 \<noteq> 0
                                  then pixel OR push_bit plane 1 else pixel)
                         (read_be16 src (row + base + plane * 2)))
                    (0 :: byte)
             of None \<Rightarrow> None
             | Some pixel \<Rightarrow> wr d (y * nat 640 + x) pixel) e = Some e' \<and> length e' = 256000"
  proof (rule for_loop_total [where P = "\<lambda>d. length d = 256000"])
    show "length e = 256000" by (rule e)
  next
    fix x f assume x: "x \<in> set [0..<nat 640]" and f: "length (f :: byte list) = 256000"
    from y have yl: "y \<le> 199" by simp
    from x have xl: "x < 640" by simp
    then have "x div 16 \<le> 39" by simp
    then have "x div 16 * 1 * 2 \<le> 78" by simp
    moreover from yl have "y * 160 \<le> 199 * 160" by (rule mult_le_mono1)
    ultimately have r: "y * 160 + (x div 16) * 1 * 2 + 1 < length src"
      unfolding assms(1) by simp
    from yl have "y * 640 \<le> 199 * 640" by (rule mult_le_mono1)
    with xl have i: "y * nat 640 + x < length f" unfolding f by simp
    from st_pixel_one_plane [OF r i] f
    show "\<exists>s'. (let row = y * 160;
                 group = x div 16;
                 bit_pos = 15 - x mod 16;
                 base = group * nat 1 * 2
             in
             case for_loop [0..<nat 1]
                    (\<lambda>plane pixel.
                       map_option
                         (\<lambda>word. if word AND push_bit bit_pos 1 \<noteq> 0
                                  then pixel OR push_bit plane 1 else pixel)
                         (read_be16 src (row + base + plane * 2)))
                    (0 :: byte)
             of None \<Rightarrow> None
             | Some pixel \<Rightarrow> wr f (y * nat 640 + x) pixel) = Some s' \<and> length s' = 256000"
      by simp
  qed
qed

lemma decode_st_bitplanes_high_fails:
  assumes "length src = 32000"
  shows "decode_st_bitplanes src 160 (replicate (nat (640 * 400)) 0) 640 400 1 = None"
proof -
  have l: "length (replicate (nat (640 * 400)) (0 :: byte)) = 256000" by simp
  from st_high_rows_ok [OF assms l] obtain d1 where
    d1: "for_loop [0..<200]
       (\<lambda>y. for_loop [0..<nat 640]
          (\<lambda>x d.
             let row = y * 160;
                 group = x div 16;
                 bit_pos = 15 - x mod 16;
                 base = group * nat 1 * 2
             in
             case for_loop [0..<nat 1]
                    (\<lambda>plane pixel.
                       map_option
                         (\<lambda>word. if word AND push_bit bit_pos 1 \<noteq> 0
                                  then pixel OR push_bit plane 1 else pixel)
                         (read_be16 src (row + base + plane * 2)))
                    (0 :: byte)
             of None \<Rightarrow> None
             | Some pixel \<Rightarrow> wr d (y * nat 640 + x) pixel))
       (replicate (nat (640 * 400)) 0) = Some d1" by blast
  have sp: "[0..<nat 400] = [0..<200] @ 200 # [201..<400]"
  proof -
    have "[0..<400] = [0..<200] @ [200..<400]"
      using upt_add_eq_append [of 0 200 200] by simp
    moreover have "[200..<400] = 200 # [Suc 200..<400]" by (rule upt_conv_Cons) simp
    ultimately show ?thesis by simp
  qed
  have r: "read_be16 src (200 * 160 + 0 div 16 * nat 1 * 2 + 0 * 2) = None"
    by (rule read_be16_None) (simp add: assms)
  have u: "[0..<nat 1] = [0]" by simp
  have row: "for_loop [0..<nat 640]
          (\<lambda>x d.
             let row = 200 * 160;
                 group = x div 16;
                 bit_pos = 15 - x mod 16;
                 base = group * nat 1 * 2
             in
             case for_loop [0..<nat 1]
                    (\<lambda>plane pixel.
                       map_option
                         (\<lambda>word. if word AND push_bit bit_pos 1 \<noteq> 0
                                  then pixel OR push_bit plane 1 else pixel)
                         (read_be16 src (row + base + plane * 2)))
                    (0 :: byte)
             of None \<Rightarrow> None
             | Some pixel \<Rightarrow> wr d (200 * nat 640 + x) pixel) d1 = None"
  proof (rule for_loop_first_fails)
    show "0 < nat 640" by simp
    show "(let row = 200 * 160;
                 group = 0 div 16;
                 bit_pos = 15 - 0 mod 16;
                 base = group * nat 1 * 2
             in
             case for_loop [0..<nat 1]
                    (\<lambda>plane pixel.
                       map_option
                         (\<lambda>word. if word AND push_bit bit_pos 1 \<noteq> 0
                                  then pixel OR push_bit plane 1 else pixel)
                         (read_be16 src (row + base + plane * 2)))
                    (0 :: byte)
             of None \<Rightarrow> None
             | Some pixel \<Rightarrow> wr d1 (200 * nat 640 + 0) pixel) = None"
      unfolding Let_def u using r by simp
  qed
  show ?thesis
    unfolding decode_st_bitplanes_def sp for_loop_append d1 option.case
    by (simp only: for_loop.simps row option.case)
qed

declare tny_read_rle.simps [simp del]

lemma for_loop_r_inv:
  assumes "for_loop_r is body s = Some (Inr s')" "P s"
    "\<And>i s s'. i \<in> set is \<Longrightarrow> body i s = Some (Inr s') \<Longrightarrow> P s \<Longrightarrow> P s'"
  shows "P s'"
  using assms
proof (induction "is" arbitrary: s)
  case Nil
  then show ?case by simp
next
  case (Cons i "is")
  from Cons.prems(1) obtain s1 where s1: "body i s = Some (Inr s1)"
    "for_loop_r is body s1 = Some (Inr s')"
    by (auto split: option.splits sum.splits)
  from Cons.prems(3) [OF _ s1(1) Cons.prems(2)] have p1: "P s1" by simp
  show ?case
  proof (rule Cons.IH [OF s1(2) p1])
    fix j t t' assume "j \<in> set is" "body j t = Some (Inr t')" "P t"
    then show "P t'" using Cons.prems(3) [of j t t'] by simp
  qed
qed

lemma tny_store_length:
  assumes "tny_store data offset (r, bm) = Some (Inr (r', bm'))"
  shows "length bm' = length bm"
proof -
  note a = assms [unfolded tny_store_def prod.case]
  obtain b r1 where rr: "tny_read_rle data r = Some (b, r1)"
    using a by (cases "tny_read_rle data r") auto
  from a have nb: "\<not> b < 0" unfolding rr by (cases "b < 0") simp_all
  from a nb obtain b1 b2 where "wr bm offset (word_of_int (drop_bit 8 b)) = Some b1"
    "wr b1 (offset + 1) (word_of_int (b AND 0xFF)) = Some b2" "bm' = b2"
    unfolding rr by (auto simp: bind_eq_Some_conv simp del: wr_Some)
  then show ?thesis by (auto dest!: wr_length)
qed

lemma tny_unpack_length:
  assumes "tny_unpack data reader bitmap = Some (Inr (reader', bitmap'))"
  shows "length bitmap' = length bitmap"
proof -
  define P where "P s \<longleftrightarrow> length (snd s) = length bitmap" for s :: "tny_stream_reader \<times> byte list"
  have "P (reader', bitmap')"
  proof (rule for_loop_r_inv [OF assms [unfolded tny_unpack_def], where P = P])
    show "P (reader, bitmap)" by (simp add: P_def)
  next
    fix bitplane s s'
    assume l1: "for_loop_r (map (\<lambda>k. bitplane + 8 * k) [0..<(160 - bitplane + 7) div 8])
          (\<lambda>x. for_loop_r [0..<200] (\<lambda>y. tny_store data (y * 160 + x))) s = Some (Inr s')"
      and p: "P s"
    show "P s'"
    proof (rule for_loop_r_inv [OF l1, where P = P])
      show "P s" by (rule p)
    next
      fix x t t'
      assume l2: "for_loop_r [0..<200] (\<lambda>y. tny_store data (y * 160 + x)) t = Some (Inr t')"
        and pt: "P t"
      show "P t'"
      proof (rule for_loop_r_inv [OF l2, where P = P])
        show "P t" by (rule pt)
      next
        fix y u u'
        assume "tny_store data (y * 160 + x) u = Some (Inr u')" and pu: "P u"
        then have "length (snd u') = length (snd u)"
          using tny_store_length [of data "y * 160 + x" "fst u" "snd u" "fst u'" "snd u'"] by simp
        with pu show "P u'" by (simp add: P_def)
      qed
    qed
  qed
  then show ?thesis by (simp add: P_def)
qed

lemma tny_palette_total:
  assumes "pal_ptr + 2 * n \<le> length data" "n \<le> 256"
  shows "\<exists>pal. tny_palette data pal_ptr n = Some pal"
proof -
  have "\<exists>pal. tny_palette data pal_ptr n = Some pal \<and> length pal = 768"
    unfolding tny_palette_def
  proof (rule for_loop_total [where P = "\<lambda>p. length p = 768"])
    show "length (replicate (256 * 3) (0 :: byte)) = 768" by simp
  next
    fix i p assume i: "i \<in> set [0..<n]" and p: "length (p :: byte list) = 768"
    from i assms have "pal_ptr + i * 2 + 1 < length data" by simp
    from read_be16_Some [OF this] obtain c where c: "read_be16 data (pal_ptr + i * 2) = Some c"
      by blast
    from i assms(2) have "i * 3 + 2 < length p" unfolding p by simp
    then show "\<exists>s'. read_be16 data (pal_ptr + i * 2) \<bind>
            (\<lambda>st_color. let rgb = st_color_to_rgb st_color
                        in wr p (i * 3) (rgb ! 0) \<bind>
                           (\<lambda>p0. wr p0 (i * 3 + 1) (rgb ! 1) \<bind>
                                (\<lambda>p1. wr p1 (i * 3 + 2) (rgb ! 2)))) = Some s' \<and>
         length s' = 768"
      unfolding c Let_def using p by simp
  qed
  then show ?thesis by blast
qed

lemma tny_decode_image_high_fails:
  assumes "length bitmap = 32000" "content_offset + 5 \<le> length data"
    "ok (validate_dimensions 640 400 options DEFAULT_MAX_DIMENSION)"
  shows "tny_decode_image data content_offset 2 bitmap surf options True = None"
proof -
  have ss: "set_size 640 400 indexed8 True surf =
     (True, \<lparr>pixels = replicate (nat 640 * bytes_per_pixel indexed8 * nat 400) 0, palette = [],
        subrects = [], width = 640, height = 400, pitch = nat 640 * bytes_per_pixel indexed8,
        format = indexed8\<rparr>)"
    by (rule set_size_ok) simp_all
  from assms(2) have "content_offset + 1 + 2 * 2 \<le> length data" by simp
  from tny_palette_total [OF this] obtain pal where
    pal: "tny_palette data (content_offset + 1) (nat 2) = Some pal" by auto
  have m: "tny_mode_info 2 = Some (640, 400, 1, 2)" by (simp add: tny_mode_info_def)
  have f: "decode_st_bitplanes bitmap 160 (replicate (nat (640 * 400)) 0) 640 400 1 = None"
    by (rule decode_st_bitplanes_high_fails [OF assms(1)])
  show ?thesis
    unfolding tny_decode_image_def m option.case prod.case Let_def ss pal f
    using assms(3) by simp
qed


text \<open>
  Claim C3. The Tiny Stuff decoder passes the stride 160 to \<open>decode_st_bitplanes\<close> for
  every resolution. In high resolution (640 by 400 pixels, one bit plane) a row has 80
  bytes and the rows 200 to 399 are read at \<open>200 * 160 = 32000\<close> and beyond, past the end of
  the bitmap of 32000 bytes: every file of mode 2 (or 5) whose data unpacks, under limits
  that admit the image and with the surface allocated, makes the decoder read out of
  bounds. In the model this is the value \<open>None\<close>; no result is returned.
\<close>

theorem tiny_stuff_high_resolution_reads_out_of_bounds:
  assumes "42 \<le> length data"
    and "(data ! 0 = 2 \<and> co = 0) \<or> (data ! 0 = 5 \<and> co = 4)"
    and "cl = nat (push_bit 8 (uint (data ! (co + 33))) OR uint (data ! (co + 34)))"
    and "vl = push_bit 1 (nat (push_bit 8 (uint (data ! (co + 35))) OR uint (data ! (co + 36))))"
    and "co + 37 + cl + vl \<le> length data"
    and "tny_unpack data (tny_init (co + 37) cl (co + 37 + cl) vl) (replicate 32000 0) =
           Some (Inr (reader, bitmap))"
    and "ok (validate_dimensions 640 400 options DEFAULT_MAX_DIMENSION)"
  shows "tiny_stuff_decode data surf options True = None"
proof -
  from assms(2) have co: "co = 0 \<or> co = 4" by auto
  with assms(1) have r: "rd data 0 = Some (data ! 0)" "rd data (co + 33) = Some (data ! (co + 33))"
    "rd data (co + 34) = Some (data ! (co + 34))" "rd data (co + 35) = Some (data ! (co + 35))"
    "rd data (co + 36) = Some (data ! (co + 36))"
    by (auto simp: rd_def)
  from tny_unpack_length [OF assms(6)] have lb: "length bitmap = 32000" by simp
  from co assms(1) have "co + 5 \<le> length data" by auto
  from tny_decode_image_high_fails [OF lb this assms(7)]
  have img: "tny_decode_image data co 2 bitmap surf options True = None" .
  from assms(2) have m: "\<not> (uint (data ! 0) > 2 \<and> uint (data ! 0) > 5)"
    "(if uint (data ! 0) > 2 then uint (data ! 0) - 3 else uint (data ! 0)) = 2"
    "(if uint (data ! 0) > 2 then 4 else 0) = co"
    by auto
  from assms(1) have nl: "\<not> length data < 42" by simp
  from assms(5) have nt: "\<not> co + 37 + cl + vl > length data" by simp
  show ?thesis
    unfolding tiny_stuff_decode_def r(1) option.case Let_def m(2,3) r(2-) Option.bind_lunit
      assms(3,4) [symmetric] assms(6) sum.case prod.case img
    using nl m(1) nt by simp
qed

lemma tny_sample_read:
  assumes "tny_sample_state n st" "0 < n"
  shows "\<exists>st'. tny_read_rle (tny_sample @ pad) st = Some (0, st') \<and> tny_sample_state (n - 1) st'"
proof (cases "ctrl_pos st = 37")
  case True
  with assms(1) have s: "ctrl_end st = 40" "val_end st = 42" "val_pos st = 40" "repeat_count st = 0"
    "n = 16000"
    by (auto simp: tny_sample_state_def)
  have lt: "length tny_sample = 42" by (simp add: tny_sample_def)
  then have l: "length (tny_sample @ pad) = 42 + length pad" by simp
  have at: "(tny_sample @ pad) ! 37 = 0" "(tny_sample @ pad) ! 38 = 0x3E"
    "(tny_sample @ pad) ! 39 = 0x80" "(tny_sample @ pad) ! 40 = 0" "(tny_sample @ pad) ! 41 = 0"
    by (simp_all add: tny_sample_def)
  have r: "rd (tny_sample @ pad) 37 = Some 0" "rd (tny_sample @ pad) 38 = Some 0x3E"
    "rd (tny_sample @ pad) 39 = Some 0x80" "rd (tny_sample @ pad) 40 = Some 0"
    "rd (tny_sample @ pad) 41 = Some 0"
    unfolding rd_def l at by simp_all
  have v: "push_bit 8 (uint (0x3E :: byte)) OR uint (0x80 :: byte) = 16000" by simp
  have c: "tny_read_command (tny_sample @ pad) st =
      Some (True, st\<lparr>ctrl_pos := 40, repeat_count := 16000, val_pos := 42, repeat_value := 0\<rparr>)"
    unfolding tny_read_command_def tny_read_ctrl_byte_def tny_read_value_def
    by (simp add: True s lt r v del: rd_Some rd_None)
  show ?thesis
    apply (subst tny_read_rle.simps)
    apply (simp add: s c)
    apply (subst tny_read_rle.simps)
    apply (simp add: s tny_sample_state_def)
    done
next
  case False
  with assms(1) have s: "ctrl_end st = 40" "val_end st = 42" "ctrl_pos st = 40" "val_pos st = 42"
    "repeat_value st = 0" "repeat_count st = int n"
    by (auto simp: tny_sample_state_def)
  from assms(2) s(6) have nz: "repeat_count st \<noteq> 0" by simp
  show ?thesis
    apply (subst tny_read_rle.simps)
    using assms(2) apply (simp add: s nz tny_sample_state_def Let_def)
    done
qed


lemma for_loop_r_count:
  assumes "\<And>i n s. i \<in> set is \<Longrightarrow> k \<le> n \<Longrightarrow> J n s \<Longrightarrow>
      \<exists>s'. body i s = Some (Inr s') \<and> J (n - k) s'"
    "k * length is \<le> n" "J n s"
  shows "\<exists>s'. for_loop_r is body s = Some (Inr s') \<and> J (n - k * length is) s'"
  using assms
proof (induction "is" arbitrary: n s)
  case Nil
  then show ?case by simp
next
  case (Cons i "is")
  from Cons.prems(2) have kn: "k \<le> n" and rest: "k * length is \<le> n - k" by simp_all
  from Cons.prems(1) [of i n s] kn Cons.prems(3) obtain s1 where
    s1: "body i s = Some (Inr s1)" "J (n - k) s1" by auto
  have "\<exists>s'. for_loop_r is body s1 = Some (Inr s') \<and> J (n - k - k * length is) s'"
  proof (rule Cons.IH [OF _ rest s1(2)])
    fix j m t assume "j \<in> set is" "k \<le> m" "J m t"
    then show "\<exists>s'. body j t = Some (Inr s') \<and> J (m - k) s'"
      using Cons.prems(1) [of j m t] by simp
  qed
  moreover have "n - k - k * length is = n - k * length (i # is)" by simp
  ultimately show ?case using s1(1) by (simp del: mult_Suc_right)
qed

lemma tny_sample_store:
  assumes "tny_sample_state n (fst s)" "length (snd s) = 32000" "1 \<le> n" "offset + 1 < 32000"
  shows "\<exists>s'. tny_store (tny_sample @ pad) offset s = Some (Inr s') \<and>
     tny_sample_state (n - 1) (fst s') \<and> length (snd s') = 32000"
proof -
  obtain r bm where s: "s = (r, bm)" by (cases s)
  from assms(1,3) s tny_sample_read [of n r pad] obtain r' where
    r': "tny_read_rle (tny_sample @ pad) r = Some (0, r')" "tny_sample_state (n - 1) r'" by auto
  from assms(2,4) s have "offset < length bm" "offset + 1 < length bm" by simp_all
  then show ?thesis
    unfolding s tny_store_def prod.case r'(1) option.case
    using r'(2) assms(2) s by simp
qed

lemma tny_sample_unpack:
  "\<exists>reader bitmap. tny_unpack (tny_sample @ pad) (tny_init 37 3 40 2) (replicate 32000 0) =
     Some (Inr (reader, bitmap))"
proof -
  define J where "J n s \<longleftrightarrow> tny_sample_state n (fst s) \<and> length (snd s) = 32000"
    for n and s :: "tny_stream_reader \<times> byte list"
  have init: "J 16000 (tny_init 37 3 40 2, replicate 32000 0)"
    by (simp add: J_def tny_sample_state_def tny_init_def)
  have inner: "\<exists>s'. for_loop_r [0..<200] (\<lambda>y. tny_store (tny_sample @ pad) (y * 160 + x)) s =
      Some (Inr s') \<and> J (n - 200) s'"
    if "x \<le> 158" "200 \<le> n" "J n s" for x n s
  proof -
    have "\<exists>s'. for_loop_r [0..<200] (\<lambda>y. tny_store (tny_sample @ pad) (y * 160 + x)) s =
      Some (Inr s') \<and> J (n - 1 * length [0..<200]) s'"
    proof (rule for_loop_r_count [where J = J])
      show "1 * length [0..<200] \<le> n" using that(2) by simp
      show "J n s" by (rule that(3))
    next
      fix y m t assume y: "y \<in> set [0..<200]" and m: "1 \<le> m" and j: "J m t"
      from y have "y \<le> 199" by simp
      then have "y * 160 \<le> 199 * 160" by (rule mult_le_mono1)
      with that(1) have "y * 160 + x + 1 < 32000" by simp
      with j m tny_sample_store [of m t "y * 160 + x" pad]
      show "\<exists>s'. tny_store (tny_sample @ pad) (y * 160 + x) t = Some (Inr s') \<and> J (m - 1) s'"
        by (simp add: J_def)
    qed
    then show ?thesis by simp
  qed
  have middle: "\<exists>s'. for_loop_r (map (\<lambda>k. bitplane + 8 * k) [0..<(160 - bitplane + 7) div 8])
        (\<lambda>x. for_loop_r [0..<200] (\<lambda>y. tny_store (tny_sample @ pad) (y * 160 + x))) s =
      Some (Inr s') \<and> J (n - 4000) s'"
    if "bitplane \<in> set [0, 2, 4, 6]" "4000 \<le> n" "J n s" for bitplane n s
  proof -
    from that(1) have len: "(160 - bitplane + 7) div 8 = 20" by auto
    have "\<exists>s'. for_loop_r (map (\<lambda>k. bitplane + 8 * k) [0..<20])
        (\<lambda>x. for_loop_r [0..<200] (\<lambda>y. tny_store (tny_sample @ pad) (y * 160 + x))) s =
      Some (Inr s') \<and> J (n - 200 * length (map (\<lambda>k. bitplane + 8 * k) [0..<20])) s'"
    proof (rule for_loop_r_count [where J = J])
      show "200 * length (map (\<lambda>k. bitplane + 8 * k) [0..<20]) \<le> n" using that(2) by simp
      show "J n s" by (rule that(3))
    next
      fix x m t assume x: "x \<in> set (map (\<lambda>k. bitplane + 8 * k) [0..<20])"
        and m: "200 \<le> m" and j: "J m t"
      from x obtain k where "k < 20" "x = bitplane + 8 * k" by auto
      with that(1) have "x \<le> 158" by auto
      from inner [OF this m j]
      show "\<exists>s'. for_loop_r [0..<200] (\<lambda>y. tny_store (tny_sample @ pad) (y * 160 + x)) t =
          Some (Inr s') \<and> J (m - 200) s'" .
    qed
    then show ?thesis unfolding len by simp
  qed
  have "\<exists>s'. for_loop_r [0, 2, 4, 6]
       (\<lambda>bitplane. for_loop_r (map (\<lambda>k. bitplane + 8 * k) [0..<(160 - bitplane + 7) div 8])
          (\<lambda>x. for_loop_r [0..<200] (\<lambda>y. tny_store (tny_sample @ pad) (y * 160 + x))))
       (tny_init 37 3 40 2, replicate 32000 0) = Some (Inr s') \<and>
      J (16000 - 4000 * length [0 :: nat, 2, 4, 6]) s'"
  proof (rule for_loop_r_count [where J = J])
    show "4000 * length [0 :: nat, 2, 4, 6] \<le> 16000" by simp
    show "J 16000 (tny_init 37 3 40 2, replicate 32000 0)" by (rule init)
  next
    fix bitplane m t assume "bitplane \<in> set [0 :: nat, 2, 4, 6]" "4000 \<le> m" "J m t"
    then show "\<exists>s'. for_loop_r (map (\<lambda>k. bitplane + 8 * k) [0..<(160 - bitplane + 7) div 8])
        (\<lambda>x. for_loop_r [0..<200] (\<lambda>y. tny_store (tny_sample @ pad) (y * 160 + x))) t =
      Some (Inr s') \<and> J (m - 4000) s'"
      by (rule middle)
  qed
  then obtain s' where "tny_unpack (tny_sample @ pad) (tny_init 37 3 40 2) (replicate 32000 0) =
      Some (Inr s')" unfolding tny_unpack_def by blast
  then show ?thesis by (cases s') auto
qed


lemma tny_sample_facts:
  "42 \<le> length (tny_sample @ pad)" "(tny_sample @ pad) ! 0 = 2"
  "nat (push_bit 8 (uint ((tny_sample @ pad) ! (0 + 33))) OR uint ((tny_sample @ pad) ! (0 + 34))) = 3"
  "push_bit 1 (nat (push_bit 8 (uint ((tny_sample @ pad) ! (0 + 35))) OR
      uint ((tny_sample @ pad) ! (0 + 36)))) = 2"
  by (simp_all add: tny_sample_def)

text \<open>
  The premises hold for \<open>tny_sample\<close>, a picture of 640 by 400 pixels that is all of one
  colour, with or without a byte of padding after it: neither the file of 43 bytes nor its
  truncation to 42 bytes is decoded without a read past the bitmap.
\<close>

theorem tiny_stuff_high_resolution_reads_out_of_bounds_witness:
  "42 \<le> length tny_sample \<and> tny_sample ! 0 = 2 \<and>
   (\<exists>reader bitmap. tny_unpack tny_sample (tny_init 37 3 40 2) (replicate 32000 0) =
      Some (Inr (reader, bitmap))) \<and>
   ok (validate_dimensions 640 400 default_options DEFAULT_MAX_DIMENSION) \<and>
   tiny_stuff_decode (tny_sample @ [0]) empty_surface default_options True = None \<and>
   take 42 (tny_sample @ [0]) = tny_sample \<and>
   tiny_stuff_decode (take 42 (tny_sample @ [0])) empty_surface default_options True = None"
proof -
  have v: "ok (validate_dimensions 640 400 default_options DEFAULT_MAX_DIMENSION)"
    by (simp add: validate_dimensions_def get_dimension_limits_def default_options_def
        DEFAULT_MAX_DIMENSION_def success_def Let_def)
  have d: "tiny_stuff_decode (tny_sample @ pad) empty_surface default_options True = None" for pad
  proof -
    from tny_sample_unpack [of pad] obtain reader bitmap where
      u: "tny_unpack (tny_sample @ pad) (tny_init (0 + 37) 3 (0 + 37 + 3) 2) (replicate 32000 0) =
        Some (Inr (reader, bitmap))" by auto
    have le: "0 + 37 + 3 + 2 \<le> length (tny_sample @ pad)" by (simp add: tny_sample_def)
    have m: "(tny_sample @ pad) ! 0 = 2 \<and> (0 :: nat) = 0 \<or> (tny_sample @ pad) ! 0 = 5 \<and> (0 :: nat) = 4"
      by (simp add: tny_sample_facts)
    show ?thesis
      by (rule tiny_stuff_high_resolution_reads_out_of_bounds
          [OF tny_sample_facts(1) m tny_sample_facts(3) [symmetric] tny_sample_facts(4) [symmetric]
            le u v])
  qed
  have t: "take 42 (tny_sample @ [0]) = tny_sample" by (simp add: tny_sample_def)
  from d [of "[0]"] d [of "[]"] tny_sample_unpack [of "[]"] tny_sample_facts(1,2) [of "[]"] v t
  show ?thesis by simp
qed

section \<open>The limits in the other decoders\<close>


















end
